theory Spec2Isabelle
  imports Complex_Main "HOL-Library.Multiset"
begin

section \<open>Python values and failures\<close>

text \<open>
  The exceptions the modelled code can raise. A function that can raise returns
  \<open>error + 'a\<close>, with \<open>Inl\<close> the exception.
\<close>

datatype error = IndexError | ZeroDivisionError | TypeError | ValueError | RuntimeError

text \<open>
  Python's \<open>xs[i]\<close> on a list of length \<open>n\<close>: the indices \<open>0 .. n-1\<close> read from the
  front, \<open>-n .. -1\<close> from the back, and every other index raises IndexError.
\<close>

definition py_index :: "'a list \<Rightarrow> int \<Rightarrow> error + 'a" where
  "py_index xs i =
     (if 0 \<le> i \<and> i < int (length xs) then Inr (xs ! nat i)
      else if i < 0 \<and> - int (length xs) \<le> i then Inr (xs ! nat (int (length xs) + i))
      else Inl IndexError)"

text \<open>
  The slice \<open>xs[:-i]\<close> for \<open>i \<ge> 0\<close>. Python reads \<open>xs[:-0]\<close> as \<open>xs[:0]\<close>, the empty
  list; for \<open>i > 0\<close> the last \<open>i\<close> entries are dropped.
\<close>

definition slice_to_neg :: "'a list \<Rightarrow> nat \<Rightarrow> 'a list" where
  "slice_to_neg xs i = (if i = 0 then [] else take (length xs - i) xs)"

section \<open>Augmented inference: clipping the tails\<close>

text \<open>
  A prediction tensor of shape \<open>(bs, n, no)\<close> is a list of \<open>bs\<close> batch entries, each a
  list of \<open>n\<close> predictions, each a list of \<open>no\<close> numbers. \<open>shape1\<close> reads \<open>shape[1]\<close>
  off the first batch entry.
\<close>

type_synonym tensor3 = "real list list list"

definition shape1 :: "'a list list \<Rightarrow> nat" where
  "shape1 t = (case t of [] \<Rightarrow> 0 | b # _ \<Rightarrow> length b)"

text \<open>
  \<open>Model._clip_augmented\<close>. \<open>nl\<close> is the number of detection layers of the head,
  \<open>y\<close> the list of the passes' prediction tensors. \<open>y[0]\<close> is cut by \<open>[:, :-i]\<close> and
  \<open>y[-1]\<close>, read after that assignment, by \<open>[:, i:]\<close>.
\<close>

definition clip_augmented :: "nat \<Rightarrow> 'a list list list \<Rightarrow> error + 'a list list list" where
  "clip_augmented nl y =
     (let g = (\<Sum>x\<leftarrow>[0..<nl]. (4::nat) ^ x);
          e = (1::nat)
      in if y = [] then Inl IndexError
         else if g = 0 then Inl ZeroDivisionError
         else
           let i = (shape1 (y ! 0) div g) * (\<Sum>x\<leftarrow>[0..<e]. (4::nat) ^ x);
               y1 = y[0 := map (\<lambda>b. slice_to_neg b i) (y ! 0)];
               i2 = (shape1 (last y1) div g) * (\<Sum>x\<leftarrow>[0..<e]. (4::nat) ^ (nl - 1 - x));
               y2 = y1[length y1 - 1 := map (drop i2) (last y1)]
           in Inr y2)"

text \<open>
  The clipping as the specification words it: the count \<open>(shape[1] // g) * 1\<close> is taken
  off the head of the first pass and the same count off the tail of the last pass.
\<close>

definition clip_as_specified :: "'a list list list \<Rightarrow> 'a list list list" where
  "clip_as_specified y =
     (let c = (shape1 (y ! 0) div 21) * 1
      in [map (drop c) (y ! 0), y ! 1, map (\<lambda>b. take (length b - c) b) (y ! 2)])"

section \<open>Execution engine: one forward pass\<close>

text \<open>
  \<open>Model._forward_once\<close>. A layer's \<open>from\<close> attribute \<open>m.f\<close> is an int or a list
  of ints. The history \<open>y\<close> holds one slot per layer already run, \<open>None\<close> where the
  output was not kept. What a layer is called with is either one value (the running
  \<open>x\<close>, or a history slot, which may be \<open>None\<close>) or a list of such values. A layer
  itself is opaque: \<open>lrun\<close> is its forward function, which may raise.
\<close>

datatype source = Single int | Multi "int list"

datatype 'v input = One "'v option" | Many "'v option list"

record 'v layer =
  li :: int
  lf :: source
  lrun :: "'v input \<Rightarrow> error + 'v"

text \<open>
  The list comprehension \<open>[x if j == -1 else y[j] for j in m.f]\<close>.
\<close>

fun gather :: "int list \<Rightarrow> 'v \<Rightarrow> 'v option list \<Rightarrow> error + 'v option list" where
  "gather [] x y = Inr []"
| "gather (j # js) x y =
     (case (if j = -1 then Inr (Some x) else py_index y j) of
        Inl e \<Rightarrow> Inl e
      | Inr v \<Rightarrow> (case gather js x y of Inl e \<Rightarrow> Inl e | Inr vs \<Rightarrow> Inr (v # vs)))"

text \<open>
  Lines 238 to 242: with \<open>m.f = -1\<close> the running \<open>x\<close> is kept; an int \<open>m.f\<close> reads
  \<open>y[m.f]\<close>; a list gathers.
\<close>

fun resolve_input :: "source \<Rightarrow> 'v \<Rightarrow> 'v option list \<Rightarrow> error + 'v input" where
  "resolve_input (Single f) x y =
     (if f \<noteq> -1 then (case py_index y f of Inl e \<Rightarrow> Inl e | Inr v \<Rightarrow> Inr (One v))
      else Inr (One (Some x)))"
| "resolve_input (Multi fs) x y =
     (case gather fs x y of Inl e \<Rightarrow> Inl e | Inr vs \<Rightarrow> Inr (Many vs))"

text \<open>
  The loop over \<open>self.model\<close>. The source returns the last \<open>x\<close>; the model returns
  with it the history \<open>y\<close> as the loop leaves it and the list of (input, output)
  pairs of the layers in the order they ran (what the profiling hook is handed), so
  that statements about them can be written. Profiling and visualisation are
  diagnostics and change neither \<open>x\<close> nor \<open>y\<close>; they are left out.
\<close>

fun forward_loop ::
  "'v layer list \<Rightarrow> int list \<Rightarrow> 'v \<Rightarrow> 'v option list \<Rightarrow> ('v input \<times> 'v) list
     \<Rightarrow> error + ('v \<times> 'v option list \<times> ('v input \<times> 'v) list)" where
  "forward_loop [] save x y tr = Inr (x, y, tr)"
| "forward_loop (m # ms) save x y tr =
     (case resolve_input (lf m) x y of
        Inl e \<Rightarrow> Inl e
      | Inr inp \<Rightarrow>
          (case lrun m inp of
             Inl e \<Rightarrow> Inl e
           | Inr x' \<Rightarrow>
               forward_loop ms save x'
                 (y @ [if li m \<in> set save then Some x' else None]) (tr @ [(inp, x')])))"

definition forward_once ::
  "'v layer list \<Rightarrow> int list \<Rightarrow> 'v
     \<Rightarrow> error + ('v \<times> 'v option list \<times> ('v input \<times> 'v) list)" where
  "forward_once model save x = forward_loop model save x [] []"

text \<open>
  A small model over integers, used to run the forward pass on a concrete input: two
  layers that add one, a two-source layer that adds its inputs, and a layer reading
  the history.
\<close>

definition add_one :: "int input \<Rightarrow> error + int" where
  "add_one inp = (case inp of One (Some v) \<Rightarrow> Inr (v + 1) | _ \<Rightarrow> Inl TypeError)"

definition add_all :: "int input \<Rightarrow> error + int" where
  "add_all inp = (case inp of Many [Some a, Some b] \<Rightarrow> Inr (a + b) | _ \<Rightarrow> Inl TypeError)"

definition demo_model :: "int layer list" where
  "demo_model =
     [\<lparr>li = 0, lf = Single (-1), lrun = add_one\<rparr>,
      \<lparr>li = 1, lf = Single (-1), lrun = add_one\<rparr>,
      \<lparr>li = 2, lf = Multi [-1, 0], lrun = add_all\<rparr>,
      \<lparr>li = 3, lf = Single 2, lrun = add_one\<rparr>]"

section \<open>Graph builder: \<open>parse_model\<close>\<close>

subsection \<open>Values of a layer spec\<close>

text \<open>
  The values that stand in a layer's \<open>args\<close> and in \<open>anchors\<close>: ints, lists, strings
  and \<open>None\<close>. The \<open>eval\<close> of strings (lines 419 to 424) is outside the model: a
  spec carries the name of the class its module string evaluates to, and its args
  are the values the evaluation leaves.
\<close>

datatype pyval = PInt int | PList "pyval list" | PStr string | PNone

type_synonym layer_spec = "source \<times> int \<times> string \<times> pyval list"

record config =
  anchors :: pyval
  nc :: int
  depth_multiple :: real
  width_multiple :: real
  backbone :: "layer_spec list"
  head :: "layer_spec list"

text \<open>Sequencing of computations that may raise.\<close>

fun ebind :: "error + 'a \<Rightarrow> ('a \<Rightarrow> error + 'b) \<Rightarrow> error + 'b" where
  "ebind (Inl e) k = Inl e"
| "ebind (Inr v) k = k v"

fun emap :: "('a \<Rightarrow> error + 'b) \<Rightarrow> 'a list \<Rightarrow> error + 'b list" where
  "emap g [] = Inr []"
| "emap g (x # xs) = ebind (g x) (\<lambda>v. ebind (emap g xs) (\<lambda>vs. Inr (v # vs)))"

subsection \<open>Rounding\<close>

text \<open>
  Python 3's \<open>round\<close> on a float: to the nearest integer, a tie to the even one.
  Floats are read as the reals they denote.
\<close>

definition py_round :: "real \<Rightarrow> int" where
  "py_round x =
     (let fl = \<lfloor>x\<rfloor>; r = x - of_int fl
      in if r < 1 / 2 then fl
         else if 1 / 2 < r then fl + 1
         else if even fl then fl else fl + 1)"

text \<open>
  Modelled from the spec: \<open>make_divisible\<close> is imported from \<open>utils.general\<close>, which is
  not among the sources. The specification has it round to the nearest multiple of
  the divisor, never below the divisor, and then correct by one divisor upward if
  the rounding dropped below 90% of the raw value.
\<close>

definition make_divisible :: "real \<Rightarrow> int \<Rightarrow> int" where
  "make_divisible x d =
     (let r = max d (\<lfloor>x + of_int d / 2\<rfloor> div d * d)
      in if of_int r < 0.9 * x then r + d else r)"

subsection \<open>The module families, as the source lists them\<close>

definition family1 :: "string list" where
  "family1 = [''Conv'', ''GhostConv'', ''Bottleneck'', ''GhostBottleneck'', ''SPP'', ''SPPF'',
     ''DWConv'', ''MixConv2d'', ''Focus'', ''CrossConv'', ''BottleneckCSP'', ''C3'', ''C3TR'',
     ''C3SPP'', ''C3Ghost'', ''C3HB'', ''C3RFEM'', ''MultiSEAM'', ''SEAM'', ''C3STR'']"

definition repeat1 :: "string list" where
  "repeat1 = [''BottleneckCSP'', ''C3'', ''C3TR'', ''C3Ghost'', ''C3HB'', ''C3RFEM'', ''C3STR'']"

definition family2 :: "string list" where
  "family2 = [''CARAFE'', ''SPPCSPC'', ''SPPFCSPC'', ''RepConv'', ''BoT3'', ''CA'', ''CBAM'',
     ''NAMAttention'', ''GAMAttention'', ''Involution'', ''Stem'', ''ResCSPC'', ''ResCSPB'',
     ''ResXCSPB'', ''ResXCSPC'', ''BottleneckCSPB'', ''BottleneckCSPC'', ''ASPP'', ''BasicRFB'',
     ''SPPCSPC_group'', ''HorBlock'', ''CNeB'', ''C3GC'', ''C3C2'', ''nn.ConvTranspose2d'']"

definition repeat2 :: "string list" where
  "repeat2 = [''C3RFEM'', ''SPPCSPC'', ''BoT3'', ''ResCSPC'', ''ResCSPB'', ''ResXCSPB'',
     ''ResXCSPC'', ''BottleneckCSPB'', ''BottleneckCSPC'', ''HorBlock'', ''CNeB'', ''C3GC'',
     ''C3C2'']"

definition family3 :: "string list" where
  "family3 = [''CBH'', ''ES_Bottleneck'', ''DWConvblock'', ''RepVGGBlock'', ''LC_Block'',
     ''Dense'', ''conv_bn_relu_maxpool'', ''Shuffle_Block'', ''stem'', ''mobilev3_bneck'',
     ''conv_bn_hswish'', ''MobileNetV3_InvertedResidual'', ''DepthSepConv'',
     ''ShuffleNetV2_Model'', ''Conv_maxpool'', ''CoT3'', ''ConvNextBlock'', ''RepBlock'']"

definition repeat3 :: "string list" where
  "repeat3 = [''CoT3'', ''ConvNextBlock'']"

definition family4 :: "string list" where
  "family4 = [''SPPCSP'', ''BottleneckCSP2'', ''DownC'', ''BottleneckCSPF'', ''RepVGGBlockv6'',
     ''VoVGSCSP'', ''GSConv'']"

definition repeat4 :: "string list" where
  "repeat4 = [''SPPCSP'', ''BottleneckCSP2'', ''DownC'', ''BottleneckCSPF'', ''VoVGSCSP'']"

definition reorg_family :: "string list" where
  "reorg_family = [''ReOrg'', ''DWT'']"

definition attention_family :: "string list" where
  "attention_family = [''S2Attention'', ''SimSPPF'', ''ACmix'', ''CrissCrossAttention'', ''SOCA'',
     ''ShuffleAttention'', ''SEAttention'', ''SimAM'', ''SKAttention'']"

definition replknet_family :: "string list" where
  "replknet_family = [''RepLKNet_Stem'', ''RepLKNet_stage1'', ''RepLKNet_stage2'',
     ''RepLKNet_stage3'', ''RepLKNet_stage4'']"

definition idetect_family :: "string list" where
  "idetect_family = [''IDetect'', ''IAuxDetect'']"

definition detectx_family :: "string list" where
  "detectx_family = [''DetectX'', ''DetectYoloX'']"

definition torchvision_family :: "string list" where
  "torchvision_family = [''RegNet1'', ''RegNet2'', ''RegNet3'', ''Efficient1'', ''Efficient2'',
     ''Efficient3'', ''MobileNet1'', ''MobileNet2'', ''MobileNet3'']"

subsection \<open>Reading the channel trace and the args\<close>

text \<open>
  \<open>ch[f]\<close>: a list \<open>f\<close> is no index (TypeError). \<open>[ch[x] for x in f]\<close>: an int \<open>f\<close>
  cannot be iterated (TypeError).
\<close>

fun ch_at :: "int list \<Rightarrow> source \<Rightarrow> error + int" where
  "ch_at chs (Single k) = py_index chs k"
| "ch_at chs (Multi ks) = Inl TypeError"

fun ch_all :: "int list \<Rightarrow> source \<Rightarrow> error + int list" where
  "ch_all chs (Single k) = Inl TypeError"
| "ch_all chs (Multi ks) = emap (py_index chs) ks"

text \<open>
  \<open>args[0]\<close>, read where a channel count is expected. The model takes it to be an
  int: any other value is reported as TypeError (in the source it fails in the
  arithmetic that follows or, in the branches that only copy it, later on).
\<close>

fun first_int :: "pyval list \<Rightarrow> error + int" where
  "first_int [] = Inl IndexError"
| "first_int (PInt c # _) = Inr c"
| "first_int (_ # _) = Inl TypeError"

text \<open>
  \<open>c1, c2 = ch[f], args[0]\<close> followed by \<open>if c2 != no: c2 = make_divisible(c2 * gw, 8)\<close>.
\<close>

definition scaled_pair :: "int \<Rightarrow> real \<Rightarrow> int list \<Rightarrow> source \<Rightarrow> pyval list \<Rightarrow> error + int \<times> int" where
  "scaled_pair no gw chs f args =
     ebind (ch_at chs f) (\<lambda>c1.
     ebind (first_int args) (\<lambda>c2.
       Inr (c1, if c2 \<noteq> no then make_divisible (of_int c2 * gw) 8 else c2)))"

text \<open>
  The four branches that build \<open>[c1, c2, *args[1:]]\<close> and, for the modules of
  \<open>reps\<close>, insert the repeat count as third argument and set \<open>n = 1\<close>.
\<close>

definition scaled_rule ::
  "int \<Rightarrow> real \<Rightarrow> int list \<Rightarrow> source \<Rightarrow> int \<Rightarrow> string \<Rightarrow> pyval list \<Rightarrow> string list
     \<Rightarrow> error + pyval list \<times> int \<times> int" where
  "scaled_rule no gw chs f n m args reps =
     ebind (scaled_pair no gw chs f args) (\<lambda>(c1, c2).
       if m \<in> set reps then Inr ([PInt c1, PInt c2, PInt n] @ tl args, c2, 1)
       else Inr ([PInt c1, PInt c2] @ tl args, c2, n))"

text \<open>
  \<open>nn.ConvTranspose2d\<close>: \<open>if len(args) >= 7: args[6] = make_divisible(args[6] * gw, 8)\<close>.
\<close>

definition scale_arg6 :: "real \<Rightarrow> pyval list \<Rightarrow> error + pyval list" where
  "scale_arg6 gw args =
     (if 7 \<le> length args then
        (case args ! 6 of
           PInt a \<Rightarrow> Inr (args[6 := PInt (make_divisible (of_int a * gw) 8)])
         | _ \<Rightarrow> Inl TypeError)
      else Inr args)"

text \<open>
  The detection heads: \<open>args.append([ch[x] for x in f])\<close>, then an int \<open>args[1]\<close> is
  replaced by \<open>[list(range(args[1] * 2))] * len(f)\<close>.
\<close>

definition detect_rule :: "int list \<Rightarrow> source \<Rightarrow> pyval list \<Rightarrow> error + pyval list" where
  "detect_rule chs f args =
     ebind (ch_all chs f) (\<lambda>cs.
       let args1 = args @ [PList (map PInt cs)] in
       ebind (py_index args1 1) (\<lambda>a1.
         case a1 of
           PInt k \<Rightarrow>
             Inr (args1[1 := PList (replicate (length cs)
                                     (PList (map (\<lambda>j. PInt (int j)) [0..<nat (k * 2)])))])
         | _ \<Rightarrow> Inr args1))"

subsection \<open>One layer: resolved args, output channels, repeat count\<close>

text \<open>
  The \<open>if\<close>/\<open>elif\<close> chain of lines 428 to 547, in the source's order (the second
  \<open>RepBlock\<close> and \<open>ConvNeXt\<close> branches included, though an earlier branch takes these
  modules). \<open>c2\<close> is the variable as the previous layer left it: several branches do
  not assign it. The result is \<open>(args, c2, n)\<close>.
\<close>

definition resolve_layer ::
  "int \<Rightarrow> real \<Rightarrow> int list \<Rightarrow> int \<Rightarrow> source \<Rightarrow> int \<Rightarrow> string \<Rightarrow> pyval list
     \<Rightarrow> error + pyval list \<times> int \<times> int" where
  "resolve_layer no gw chs c2 f n m args =
     (if m \<in> set family1 then scaled_rule no gw chs f n m args repeat1
      else if m \<in> set family2 then
        ebind (scaled_rule no gw chs f n m args repeat2) (\<lambda>(args', c2', n').
          if m \<in> set repeat2 then Inr (args', c2', n')
          else if m = ''nn.ConvTranspose2d'' then
            ebind (scale_arg6 gw args') (\<lambda>args''. Inr (args'', c2', n'))
          else Inr (args', c2', n'))
      else if m \<in> set family3 then scaled_rule no gw chs f n m args repeat3
      else if m \<in> set family4 then scaled_rule no gw chs f n m args repeat4
      else if m \<in> set reorg_family then
        ebind (ch_at chs f) (\<lambda>c. Inr (args, c * 4, n))
      else if m \<in> set attention_family then
        ebind (scaled_pair no gw chs f args) (\<lambda>(c1, c2'). Inr (PInt c1 # tl args, c2', n))
      else if m = ''nn.BatchNorm2d'' then
        ebind (ch_at chs f) (\<lambda>c. Inr ([PInt c], c2, n))
      else if m = ''Concat'' then
        ebind (ch_all chs f) (\<lambda>cs. Inr (args, sum_list cs, n))
      else if m = ''ConvNeXt'' then
        ebind (first_int args) (\<lambda>c. Inr (tl args, c, n))
      else if m \<in> set replknet_family then
        ebind (first_int args) (\<lambda>c. Inr (tl args, c, n))
      else if m = ''ADD'' then
        ebind (ch_all chs f) (\<lambda>cs. Inr (args, sum_list cs div 2, n))
      else if m = ''Concat_bifpn'' then
        ebind (ch_all chs f) (\<lambda>cs.
          if cs = [] then Inl ValueError else Inr (args, Max (set cs), n))
      else if m = ''RepBlock'' then Inr (take 2 args @ [PInt n] @ drop 2 args, c2, 1)
      else if m = ''ConvNeXt'' then
        ebind (first_int args) (\<lambda>c. Inr (tl args, c, n))
      else if m = ''Detect'' then
        ebind (detect_rule chs f args) (\<lambda>args'. Inr (args', c2, n))
      else if m = ''space_to_depth'' then
        ebind (ch_at chs f) (\<lambda>c. Inr (args, 4 * c, n))
      else if m = ''ASFF_Detect'' then
        ebind (detect_rule chs f args) (\<lambda>args'. Inr (args', c2, n))
      else if m = ''Decoupled_Detect'' then
        ebind (detect_rule chs f args) (\<lambda>args'. Inr (args', c2, n))
      else if m \<in> set idetect_family then
        ebind (detect_rule chs f args) (\<lambda>args'. Inr (args', c2, n))
      else if m \<in> set detectx_family then
        ebind (ch_all chs f) (\<lambda>cs. Inr (args @ [PList (map PInt cs)], c2, n))
      else if m = ''Contract'' then
        ebind (ch_at chs f) (\<lambda>c. ebind (first_int args) (\<lambda>a. Inr (args, c * a ^ 2, n)))
      else if m = ''MobileOne'' then
        ebind (ch_at chs f) (\<lambda>c1. ebind (first_int args) (\<lambda>a.
          let c2' = make_divisible (of_int a * gw) 8
          in Inr ([PInt c1, PInt c2', PInt n] @ tl args, c2', n)))
      else if m = ''HorNet'' then
        ebind (first_int args) (\<lambda>c. Inr (tl args, c, n))
      else if m \<in> set torchvision_family then
        ebind (first_int args) (\<lambda>c. Inr (args, c, n))
      else if m = ''Expand'' then
        ebind (ch_at chs f) (\<lambda>c. ebind (first_int args) (\<lambda>a.
          if a ^ 2 = 0 then Inl ZeroDivisionError else Inr (args, c div a ^ 2, n)))
      else ebind (ch_at chs f) (\<lambda>c. Inr (args, c, n)))"

subsection \<open>The loop over the layer specs\<close>

text \<open>
  What the builder records of a layer: the attributes \<open>i\<close>, \<open>f\<close> and \<open>type\<close> it attaches
  to the module, the args the module is constructed with and the number of copies
  put in sequence. The module classes are opaque; their constructors are taken
  to return.
\<close>

record built =
  b_i :: nat
  b_f :: source
  b_type :: string
  b_args :: "pyval list"
  b_n :: int

record pstate =
  st_layers :: "built list"
  st_save :: "int list"
  st_c2 :: int
  st_ch :: "int list"

fun sources :: "source \<Rightarrow> int list" where
  "sources (Single k) = [k]"
| "sources (Multi ks) = ks"

text \<open>
  \<open>x % i for x in ([f] if isinstance(f, int) else f) if x != -1\<close>: the remainder by the
  layer's own index, which is 0 for the first layer.
\<close>

definition save_refs :: "nat \<Rightarrow> source \<Rightarrow> error + int list" where
  "save_refs i f =
     (let xs = filter (\<lambda>x. x \<noteq> -1) (sources f)
      in if xs \<noteq> [] \<and> i = 0 then Inl ZeroDivisionError
         else Inr (map (\<lambda>x. x mod int i) xs))"

text \<open>The depth gain of line 427.\<close>

definition depth_gain :: "real \<Rightarrow> int \<Rightarrow> int" where
  "depth_gain gd n = (if 1 < n then max (py_round (of_int n * gd)) 1 else n)"

definition parse_step :: "int \<Rightarrow> real \<Rightarrow> real \<Rightarrow> nat \<Rightarrow> layer_spec \<Rightarrow> pstate \<Rightarrow> error + pstate" where
  "parse_step no gd gw i spec st =
     (case spec of (f, n, m, args) \<Rightarrow>
        ebind (resolve_layer no gw (st_ch st) (st_c2 st) f (depth_gain gd n) m args)
          (\<lambda>(args', c2', n').
        ebind (save_refs i f) (\<lambda>refs.
          Inr \<lparr>st_layers = st_layers st @
                  [\<lparr>b_i = i, b_f = f, b_type = m, b_args = args', b_n = n'\<rparr>],
               st_save = st_save st @ refs,
               st_c2 = c2',
               st_ch = (if i = 0 then [] else st_ch st) @ [c2']\<rparr>)))"

fun parse_loop ::
  "int \<Rightarrow> real \<Rightarrow> real \<Rightarrow> nat \<Rightarrow> layer_spec list \<Rightarrow> pstate \<Rightarrow> error + pstate" where
  "parse_loop no gd gw i [] st = Inr st"
| "parse_loop no gd gw i (spec # specs) st =
     ebind (parse_step no gd gw i spec st) (parse_loop no gd gw (Suc i) specs)"

text \<open>
  \<open>na = (len(anchors[0]) // 2) if isinstance(anchors, list) else anchors\<close>, for
  \<open>anchors\<close> a list or an int; any other value is reported as TypeError.
\<close>

fun num_anchors :: "pyval \<Rightarrow> error + int" where
  "num_anchors (PList []) = Inl IndexError"
| "num_anchors (PList (PList xs # _)) = Inr (int (length xs) div 2)"
| "num_anchors (PList (PStr s # _)) = Inr (int (length s) div 2)"
| "num_anchors (PList (_ # _)) = Inl TypeError"
| "num_anchors (PInt k) = Inr k"
| "num_anchors _ = Inl TypeError"

text \<open>
  \<open>parse_model(d, ch)\<close>: the recorded layers and \<open>sorted(save)\<close>.
\<close>

definition parse_model :: "config \<Rightarrow> int list \<Rightarrow> error + built list \<times> int list" where
  "parse_model d chs =
     ebind (num_anchors (anchors d)) (\<lambda>na.
       let no = na * (nc d + 5) in
       ebind (py_index chs (-1)) (\<lambda>c2.
       ebind (parse_loop no (depth_multiple d) (width_multiple d) 0 (backbone d @ head d)
                \<lparr>st_layers = [], st_save = [], st_c2 = c2, st_ch = chs\<rparr>)
         (\<lambda>st. Inr (st_layers st, sort (st_save st)))))"

text \<open>
  The save list as the specification words it: every source index other than \<open>-1\<close>,
  of every spec in order, taken modulo the index of the spec that names it.
\<close>

fun all_refs :: "nat \<Rightarrow> layer_spec list \<Rightarrow> int list" where
  "all_refs i [] = []"
| "all_refs i ((f, n, m, args) # specs) =
     map (\<lambda>x. x mod int i) (filter (\<lambda>x. x \<noteq> -1) (sources f)) @ all_refs (Suc i) specs"

text \<open>
  The modules whose branch takes the output channels from \<open>args[0]\<close> and never reads
  the channel trace \<open>ch\<close>.
\<close>

definition passthrough_family :: "string list" where
  "passthrough_family = ''ConvNeXt'' # replknet_family @ ''HorNet'' # torchvision_family"

text \<open>Configurations to run the builder on.\<close>

definition cfg_twice :: config where
  "cfg_twice = \<lparr>anchors = PInt 3, nc = 80, depth_multiple = 0.33, width_multiple = 0.5,
     backbone = [(Single (-1), 1, ''Conv'', [PInt 64, PInt 6, PInt 2, PInt 2]),
                 (Single (-1), 3, ''C3'', [PInt 128]),
                 (Multi [-1, 0], 1, ''Concat'', [PInt 1]),
                 (Multi [-1, 0], 1, ''Concat'', [PInt 1])],
     head = []\<rparr>"

definition cfg_forward :: "string \<Rightarrow> config" where
  "cfg_forward m = \<lparr>anchors = PInt 3, nc = 80, depth_multiple = 0.33, width_multiple = 0.5,
     backbone = [(Single (-1), 1, ''Conv'', [PInt 64, PInt 6, PInt 2, PInt 2]),
                 (Single 3, 1, m, [PInt 40])],
     head = []\<rparr>"

text \<open>
  A first spec that names itself as its source.
\<close>

definition cfg_self :: "string \<Rightarrow> config" where
  "cfg_self m = \<lparr>anchors = PInt 3, nc = 80, depth_multiple = 0.33, width_multiple = 0.5,
     backbone = [(Single 0, 1, m, [PInt 40])],
     head = []\<rparr>"

text \<open>
  Three anchors and 80 classes give \<open>no = 3 * (80 + 5) = 255\<close>; a \<open>Conv\<close> and a
  \<open>MobileOne\<close> that both declare 255 output channels.
\<close>

definition cfg_output :: config where
  "cfg_output = \<lparr>anchors = PInt 3, nc = 80, depth_multiple = 0.33, width_multiple = 0.5,
     backbone = [(Single (-1), 1, ''Conv'', [PInt 255, PInt 1]),
                 (Single (-1), 1, ''MobileOne'', [PInt 255, PInt 3])],
     head = []\<rparr>"

section \<open>Augmented inference: the passes and their inverse transform\<close>

text \<open>
  \<open>Model._descale_pred\<close> on one prediction (the last axis of \<open>p\<close>); floats are read
  as the reals they denote. \<open>img_size\<close> is \<open>(height, width)\<close>. With \<open>self.inplace\<close> the
  first four entries are divided in place and \<open>p[..., 1]\<close> or \<open>p[..., 0]\<close> is assigned
  (an IndexError if the last axis is too short); otherwise the slices \<open>0:1\<close>, \<open>1:2\<close>,
  \<open>2:4\<close> and \<open>4:\<close> are transformed and concatenated.
\<close>

definition descale_row ::
  "bool \<Rightarrow> int option \<Rightarrow> real \<Rightarrow> int \<times> int \<Rightarrow> real list \<Rightarrow> error + real list" where
  "descale_row inplace flips scale img_size row =
     (if inplace then
        (let r = map (\<lambda>v. v / scale) (take 4 row) @ drop 4 row
         in if flips = Some 2 then
              (if length r \<le> 1 then Inl IndexError
               else Inr (r[1 := of_int (fst img_size) - r ! 1]))
            else if flips = Some 3 then
              (if r = [] then Inl IndexError
               else Inr (r[0 := of_int (snd img_size) - r ! 0]))
            else Inr r)
      else
        (let x = map (\<lambda>v. v / scale) (take 1 row);
             y = map (\<lambda>v. v / scale) (take 1 (drop 1 row));
             wh = map (\<lambda>v. v / scale) (take 2 (drop 2 row));
             y' = (if flips = Some 2 then map (\<lambda>v. of_int (fst img_size) - v) y else y);
             x' = (if flips \<noteq> Some 2 \<and> flips = Some 3
                   then map (\<lambda>v. of_int (snd img_size) - v) x else x)
         in Inr (x' @ y' @ wh @ drop 4 row)))"

text \<open>
  The whole tensor \<open>p\<close> of shape \<open>(bs, n, no)\<close>: every prediction of every batch entry.
  (On a tensor with no prediction at all the model returns it unchanged, whatever
  the length of the last axis.)
\<close>

definition descale_pred ::
  "bool \<Rightarrow> tensor3 \<Rightarrow> int option \<Rightarrow> real \<Rightarrow> int \<times> int \<Rightarrow> error + tensor3" where
  "descale_pred inplace p flips scale img_size =
     emap (emap (descale_row inplace flips scale img_size)) p"

text \<open>
  \<open>torch.cat(y, 1)\<close> of tensors of shape \<open>(bs, n_k, no)\<close>: the predictions of the
  tensors one after the other, batch entry by batch entry. An empty list and
  tensors of different batch size are refused.
\<close>

definition cat1 :: "'a list list list \<Rightarrow> error + 'a list list" where
  "cat1 ts =
     (case ts of
        [] \<Rightarrow> Inl RuntimeError
      | t # _ \<Rightarrow>
          if \<forall>u\<in>set ts. length u = length t
          then Inr (map (\<lambda>b. concat (map (\<lambda>u. u ! b) ts)) [0..<length t])
          else Inl RuntimeError)"

text \<open>
  The loop of \<open>Model._forward_augment\<close> over \<open>zip(s, f)\<close>. The image operations
  \<open>x.flip(fi)\<close> and \<open>scale_img(., si, gs)\<close> and the network itself (\<open>infer\<close>: the first
  component of what \<open>_forward_once\<close> returns) are opaque. \<open>x.flip(fi) if fi else x\<close>
  flips when \<open>fi\<close> is neither \<open>None\<close> nor 0.
\<close>

fun augment_loop ::
  "bool \<Rightarrow> ('img \<Rightarrow> int \<Rightarrow> 'img) \<Rightarrow> ('img \<Rightarrow> real \<Rightarrow> 'img) \<Rightarrow> ('img \<Rightarrow> error + tensor3)
     \<Rightarrow> int \<times> int \<Rightarrow> 'img \<Rightarrow> (real \<times> int option) list \<Rightarrow> tensor3 list
     \<Rightarrow> error + tensor3 list" where
  "augment_loop inplace flip scale_img infer img_size x [] y = Inr y"
| "augment_loop inplace flip scale_img infer img_size x ((si, fi) # rest) y =
     (let xi = scale_img (case fi of None \<Rightarrow> x | Some k \<Rightarrow> if k \<noteq> 0 then flip x k else x) si
      in ebind (infer xi) (\<lambda>yi.
         ebind (descale_pred inplace yi fi si img_size) (\<lambda>yi'.
           augment_loop inplace flip scale_img infer img_size x rest (y @ [yi']))))"

definition forward_augment ::
  "bool \<Rightarrow> nat \<Rightarrow> ('img \<Rightarrow> int \<Rightarrow> 'img) \<Rightarrow> ('img \<Rightarrow> real \<Rightarrow> 'img) \<Rightarrow> ('img \<Rightarrow> error + tensor3)
     \<Rightarrow> int \<times> int \<Rightarrow> 'img \<Rightarrow> error + real list list list" where
  "forward_augment inplace nl flip scale_img infer img_size x =
     (let s = [1, 0.83, 0.67];
          f = [None, Some 3, None]
      in ebind (augment_loop inplace flip scale_img infer img_size x (zip s f) []) (\<lambda>y.
         ebind (clip_augmented nl y) cat1))"

text \<open>
  The inverse transform as the specification words it: the four box coordinates
  divided by the scale, \<open>x\<close> reflected about the image width under a left-right
  flip (3), \<open>y\<close> about the image height under an up-down flip (2).
\<close>

definition descaled :: "int option \<Rightarrow> real \<Rightarrow> int \<times> int \<Rightarrow> real list \<Rightarrow> real list" where
  "descaled flips scale img_size row =
     [if flips = Some 3 then of_int (snd img_size) - row ! 0 / scale else row ! 0 / scale,
      if flips = Some 2 then of_int (fst img_size) - row ! 1 / scale else row ! 1 / scale,
      row ! 2 / scale,
      row ! 3 / scale] @ drop 4 row"

text \<open>
  A stand-in network for running the augmented inference: whatever the image, one
  batch entry with one prediction.
\<close>

definition one_box :: "nat \<Rightarrow> error + tensor3" where
  "one_box im = Inr [[[83, 166, 8.3, 16.6, 1, 0]]]"

section \<open>Detection head: bias initialisation\<close>

text \<open>
  \<open>math.log\<close> raises ValueError outside the positive numbers.
\<close>

definition py_log :: "real \<Rightarrow> error + real" where
  "py_log x = (if x \<le> 0 then Inl ValueError else Inr (ln x))"

text \<open>
  \<open>bias.view(na, -1)\<close>: the flat bias vector cut into \<open>na\<close> rows of equal width. The
  view is refused when the length is not a multiple of \<open>na\<close>.
\<close>

definition view_rows :: "nat \<Rightarrow> 'a list \<Rightarrow> error + 'a list list" where
  "view_rows na xs =
     (if na = 0 \<or> length xs mod na \<noteq> 0 then Inl RuntimeError
      else Inr (map (\<lambda>a. take (length xs div na) (drop (a * (length xs div na)) xs)) [0..<na]))"

text \<open>
  The class term added to \<open>b.data[:, 5:]\<close>, as a row of width \<open>w\<close>: the scalar
  \<open>math.log(0.6 / (nc - 0.999999))\<close> when \<open>cf\<close> is \<open>None\<close>, else the tensor
  \<open>torch.log(cf / cf.sum())\<close>, which must have \<open>w\<close> entries or one entry (broadcast).
  \<open>torch.log\<close> does not raise; on positive frequencies it is the real logarithm.
\<close>

definition class_offsets :: "int \<Rightarrow> real list option \<Rightarrow> nat \<Rightarrow> error + real list" where
  "class_offsets ncls cf w =
     (case cf of
        None \<Rightarrow> ebind (py_log (0.6 / (of_int ncls - 0.999999))) (\<lambda>c. Inr (replicate w c))
      | Some fs \<Rightarrow>
          if length fs = w then Inr (map (\<lambda>f. ln (f / sum_list fs)) fs)
          else if length fs = 1 then Inr (replicate w (ln (fs ! 0 / sum_list fs)))
          else Inl RuntimeError)"

text \<open>
  The body of the loop of \<open>Model._initialize_biases\<close> for one output convolution
  with bias \<open>bias\<close> and stride \<open>s\<close>: the new bias.
\<close>

definition init_bias :: "nat \<Rightarrow> int \<Rightarrow> real list option \<Rightarrow> real \<Rightarrow> real list \<Rightarrow> error + real list" where
  "init_bias na ncls cf s bias =
     ebind (view_rows na bias) (\<lambda>b.
       if length bias div na \<le> 4 then Inl IndexError
       else
         ebind (py_log (8 / (640 / s) ^ 2)) (\<lambda>obj.
         let b1 = map (\<lambda>r. r[4 := r ! 4 + obj]) b in
         ebind (class_offsets ncls cf (length bias div na - 5)) (\<lambda>cls.
         let b2 = map (\<lambda>r. take 5 r @ map2 (+) (drop 5 r) cls) b1
         in Inr (concat b2))))"

text \<open>
  The loop over \<open>zip(m.m, m.stride)\<close>: the convolutions beyond the shorter of the two
  lists keep their bias.
\<close>

definition initialize_biases ::
  "nat \<Rightarrow> int \<Rightarrow> real list option \<Rightarrow> real list \<Rightarrow> real list list \<Rightarrow> error + real list list" where
  "initialize_biases na ncls cf strides biases =
     ebind (emap (\<lambda>(bias, s). init_bias na ncls cf s bias) (zip biases strides)) (\<lambda>bs.
       Inr (bs @ drop (length bs) biases))"

section \<open>Detection head: \<open>Detect.forward\<close>\<close>

subsection \<open>Tensors, the head and the store\<close>

text \<open>
  A tensor of rank 4 or 5 is a nested list, outermost axis first; floats are read
  as the reals they denote. The output of a convolution has shape
  \<open>(bs, channels, ny, nx)\<close>, a per-scale tensor \<open>(bs, na, ny, nx, no)\<close>. The shape of a
  nested list is read off its first entries.
\<close>

type_synonym tensor4 = "real list list list list"

type_synonym tensor5 = "real list list list list list"

definition shape4 :: "tensor4 \<Rightarrow> nat \<times> nat \<times> nat \<times> nat" where
  "shape4 t =
     (length t,
      (case t of [] \<Rightarrow> 0 | c # _ \<Rightarrow> length c),
      (case t of (ch # _) # _ \<Rightarrow> length ch | _ \<Rightarrow> 0),
      (case t of ((r # _) # _) # _ \<Rightarrow> length r | _ \<Rightarrow> 0))"

text \<open>
  An entry of \<open>self.grid\<close> or \<open>self.anchor_grid\<close>: the placeholder \<open>torch.zeros(1)\<close> of
  \<open>__init__\<close>, or a tensor of shape \<open>(1, na, ny, nx, 2)\<close>. \<open>shape[2:4]\<close> of the
  placeholder, whose rank is 1, is the empty tuple.
\<close>

datatype slot = Zeros1 | T5 tensor5

fun slot_shape24 :: "slot \<Rightarrow> nat list" where
  "slot_shape24 Zeros1 = []"
| "slot_shape24 (T5 g) =
     [case g of (a # _) # _ \<Rightarrow> length a | _ \<Rightarrow> 0,
      case g of ((r # _) # _) # _ \<Rightarrow> length r | _ \<Rightarrow> 0]"

text \<open>
  The attributes of the head that \<open>forward\<close> reads. The output convolutions \<open>self.m\<close>
  are opaque functions of their input.
\<close>

record detect =
  d_no :: nat
  d_nl :: nat
  d_na :: nat
  d_anchors :: "real list list list"
  d_stride :: "real list"
  d_grid :: "slot list"
  d_anchor_grid :: "slot list"
  d_inplace :: bool
  d_training :: bool
  d_onnx_dynamic :: bool
  d_m :: "(tensor4 \<Rightarrow> error + tensor4) list"

text \<open>
  The tensors that \<open>forward\<close> creates live in a store, a list addressed by position,
  so that an assignment through a slice changes the tensor it is made on and no
  other. An entry of the list \<open>x\<close> is the feature map that came in or a reference
  to a tensor of the store.
\<close>

type_synonym store = "tensor5 list"

datatype xval = Input tensor4 | Ref nat

definition alloc :: "store \<Rightarrow> tensor5 \<Rightarrow> store \<times> nat" where
  "alloc h t = (h @ [t], length h)"

definition nth_err :: "'a list \<Rightarrow> nat \<Rightarrow> error + 'a" where
  "nth_err xs i = (if i < length xs then Inr (xs ! i) else Inl IndexError)"

subsection \<open>The tensor operations\<close>

definition sigmoid :: "real \<Rightarrow> real" where
  "sigmoid v = 1 / (1 + exp (- v))"

definition map5 :: "(real \<Rightarrow> real) \<Rightarrow> tensor5 \<Rightarrow> tensor5" where
  "map5 g t = map (map (map (map (map g)))) t"

text \<open>
  \<open>x[i].view(bs, na, no, ny, nx).permute(0, 1, 3, 4, 2).contiguous()\<close>: output \<open>q\<close> of
  anchor \<open>a\<close> is channel \<open>a * no + q\<close>.
\<close>

definition view_permute :: "nat \<Rightarrow> nat \<Rightarrow> tensor4 \<Rightarrow> tensor5" where
  "view_permute na no t =
     (case shape4 t of (bs, c, ny, nx) \<Rightarrow>
        map (\<lambda>b. map (\<lambda>a. map (\<lambda>j. map (\<lambda>k. map (\<lambda>q. t ! b ! (a * no + q) ! j ! k)
          [0..<no]) [0..<nx]) [0..<ny]) [0..<na]) [0..<bs])"

text \<open>
  \<open>Detect._make_grid(nx, ny, i)\<close>: the cell at row \<open>j\<close>, column \<open>k\<close> of the grid holds
  \<open>(k, j)\<close> for every anchor; the anchor grid holds \<open>anchors[i] * stride[i]\<close> at every
  cell. The \<open>view((1, na, 1, 1, 2))\<close> wants \<open>na\<close> anchors of two numbers.
\<close>

definition make_grid :: "detect \<Rightarrow> nat \<Rightarrow> nat \<Rightarrow> nat \<Rightarrow> error + tensor5 \<times> tensor5" where
  "make_grid d nx ny i =
     ebind (nth_err (d_anchors d) i) (\<lambda>an.
     ebind (nth_err (d_stride d) i) (\<lambda>s.
       if length an = d_na d \<and> (\<forall>p\<in>set an. length p = 2) then
         Inr ([replicate (d_na d) (map (\<lambda>j. map (\<lambda>k. [real k, real j]) [0..<nx]) [0..<ny])],
              [map (\<lambda>p. replicate ny (replicate nx (map (\<lambda>v. v * s) p))) an])
       else Inl RuntimeError))"

text \<open>
  The two slice assignments of the in-place branch, on one prediction: \<open>gr\<close> and \<open>ar\<close>
  are the entries of the grid and of the anchor grid at its cell.
\<close>

definition xy_row :: "real list \<Rightarrow> real list \<Rightarrow> real \<Rightarrow> real list" where
  "xy_row row gr s =
     [(row ! 0 * 2 - 0.5 + gr ! 0) * s, (row ! 1 * 2 - 0.5 + gr ! 1) * s] @ drop 2 row"

definition wh_row :: "real list \<Rightarrow> real list \<Rightarrow> real list" where
  "wh_row row ar =
     take 2 row @ [(row ! 2 * 2) ^ 2 * ar ! 0, (row ! 3 * 2) ^ 2 * ar ! 1] @ drop 4 row"

text \<open>
  A function of the prediction and of the entry of a \<open>(1, na, ny, nx, 2)\<close> tensor at
  its cell, applied to every prediction of \<open>y\<close> (the tensor is broadcast over the
  batch).
\<close>

definition over_cells :: "(real list \<Rightarrow> real list \<Rightarrow> real list) \<Rightarrow> tensor5 \<Rightarrow> tensor5 \<Rightarrow> tensor5" where
  "over_cells g y t =
     map (\<lambda>yb.
       map (\<lambda>a.
         map (\<lambda>j.
           map (\<lambda>k. g (yb ! a ! j ! k) (t ! 0 ! a ! j ! k)) [0..<length (yb ! a ! j)])
           [0..<length (yb ! a)])
         [0..<length yb]) y"

text \<open>
  The other branch: \<open>xy\<close>, \<open>wh\<close> and \<open>y[..., 4:]\<close> concatenated along the last axis,
  on one prediction.
\<close>

definition cat_row :: "real \<Rightarrow> real list \<Rightarrow> real list \<Rightarrow> real list \<Rightarrow> real list" where
  "cat_row s row gr ar =
     [(row ! 0 * 2 - 0.5 + gr ! 0) * s, (row ! 1 * 2 - 0.5 + gr ! 1) * s] @
     [(row ! 2 * 2) ^ 2 * ar ! 0, (row ! 3 * 2) ^ 2 * ar ! 1] @ drop 4 row"

definition cat_cells :: "real \<Rightarrow> tensor5 \<Rightarrow> tensor5 \<Rightarrow> tensor5 \<Rightarrow> tensor5" where
  "cat_cells s y g ag =
     map (\<lambda>yb.
       map (\<lambda>a.
         map (\<lambda>j.
           map (\<lambda>k. cat_row s (yb ! a ! j ! k) (g ! 0 ! a ! j ! k) (ag ! 0 ! a ! j ! k))
             [0..<length (yb ! a ! j)])
           [0..<length (yb ! a)])
         [0..<length yb]) y"

text \<open>
  \<open>y.view(bs, -1, no)\<close>: anchors, rows and columns run together into the prediction
  axis.
\<close>

definition view3 :: "tensor5 \<Rightarrow> tensor3" where
  "view3 y = map (\<lambda>yb. concat (map concat yb)) y"

subsection \<open>The forward pass\<close>

text \<open>
  The state of the loop: the head (its grid cache is assigned in the loop), the
  store, the list \<open>x\<close> and the list \<open>z\<close>, whose entries are views of tensors of the
  store and are kept as references.
\<close>

record dstate =
  s_det :: detect
  s_heap :: store
  s_x :: "xval list"
  s_z :: "nat list"

text \<open>
  The tensor of a cache entry. Where it is read, line 83 has been passed and the
  entry is no longer the placeholder.
\<close>

definition the_slot :: "slot \<Rightarrow> tensor5" where
  "the_slot sl = (case sl of Zeros1 \<Rightarrow> [[[[[0]]]]] | T5 g \<Rightarrow> g)"

text \<open>
  Lines 82 and 83: the grid and the anchor grid of scale \<open>i\<close> are rebuilt when
  \<open>onnx_dynamic\<close> is set (\<open>self.grid[i]\<close> is then not read) or the cached grid's
  \<open>shape[2:4]\<close> differs from \<open>(ny, nx)\<close>. The two assignments want position \<open>i\<close> in
  both lists.
\<close>

definition rebuild_grid :: "detect \<Rightarrow> nat \<Rightarrow> nat \<Rightarrow> nat \<Rightarrow> error + detect" where
  "rebuild_grid d i ny nx =
     ebind (make_grid d nx ny i) (\<lambda>(g', ag').
       if i < length (d_grid d) \<and> i < length (d_anchor_grid d) then
         Inr (d\<lparr>d_grid := (d_grid d)[i := T5 g'],
                d_anchor_grid := (d_anchor_grid d)[i := T5 ag']\<rparr>)
       else Inl IndexError)"

definition refresh_grid :: "detect \<Rightarrow> nat \<Rightarrow> nat \<Rightarrow> nat \<Rightarrow> error + detect" where
  "refresh_grid d i ny nx =
     (if d_onnx_dynamic d then rebuild_grid d i ny nx
      else
        ebind (nth_err (d_grid d) i) (\<lambda>g.
          if slot_shape24 g \<noteq> [ny, nx] then rebuild_grid d i ny nx else Inr d))"

text \<open>
  Line 73, \<open>self.m[i](x[i])\<close>: the convolution of scale \<open>i\<close> on the feature map that
  came in at position \<open>i\<close>.
\<close>

definition conv_out :: "detect \<Rightarrow> xval list \<Rightarrow> nat \<Rightarrow> error + tensor4" where
  "conv_out d x i =
     ebind (nth_err (d_m d) i) (\<lambda>conv.
     ebind (nth_err x i) (\<lambda>xi.
       case xi of Input t \<Rightarrow> conv t | Ref r \<Rightarrow> Inl TypeError))"

text \<open>
  Lines 74 to 76: the view wants \<open>na * no\<close> channels.
\<close>

definition raw_scale :: "detect \<Rightarrow> tensor4 \<Rightarrow> error + tensor5" where
  "raw_scale d c =
     (case shape4 c of (bs, ch, ny, nx) \<Rightarrow>
        if ch \<noteq> d_na d * d_no d then Inl RuntimeError
        else Inr (view_permute (d_na d) (d_no d) c))"

definition refresh_for :: "detect \<Rightarrow> nat \<Rightarrow> tensor4 \<Rightarrow> error + detect" where
  "refresh_for d i c = (case shape4 c of (bs, ch, ny, nx) \<Rightarrow> refresh_grid d i ny nx)"

text \<open>
  Lines 85 to 93 on the store: \<open>r\<close> refers to \<open>x[i]\<close>. \<open>y\<close>, the result of
  \<open>x[i].sigmoid()\<close>, is a new tensor; the in-place branch assigns twice through
  slices of \<open>y\<close>, the other branch builds a third tensor. The result is the store and
  the reference to the tensor whose view is appended to \<open>z\<close>.
\<close>

definition decode_store :: "detect \<Rightarrow> nat \<Rightarrow> store \<Rightarrow> nat \<Rightarrow> error + store \<times> nat" where
  "decode_store d i h r =
     (let (h2, yr) = alloc h (map5 sigmoid (h ! r));
          g = the_slot (d_grid d ! i);
          ag = the_slot (d_anchor_grid d ! i)
      in ebind (nth_err (d_stride d) i) (\<lambda>s.
           if d_inplace d then
             let h3 = h2[yr := over_cells (\<lambda>row gr. xy_row row gr s) (h2 ! yr) g];
                 h4 = h3[yr := over_cells wh_row (h3 ! yr) ag]
             in Inr (h4, yr)
           else Inr (alloc h2 (cat_cells s (h2 ! yr) g ag))))"

text \<open>
  The body of the loop for scale \<open>i\<close>. The convolution result, reshaped and permuted,
  is a new tensor of the store and \<open>x[i]\<close> refers to it.
\<close>

definition detect_scale :: "nat \<Rightarrow> dstate \<Rightarrow> error + dstate" where
  "detect_scale i st =
     (let d = s_det st in
      ebind (conv_out d (s_x st) i) (\<lambda>c.
      ebind (raw_scale d c) (\<lambda>raw.
        let (h1, r) = alloc (s_heap st) raw;
            x' = (s_x st)[i := Ref r]
        in if d_training d then Inr (st\<lparr>s_heap := h1, s_x := x'\<rparr>)
           else
             ebind (refresh_for d i c) (\<lambda>d1.
             ebind (decode_store d1 i h1 r) (\<lambda>(h', zr).
               Inr \<lparr>s_det = d1, s_heap = h', s_x = x', s_z = s_z st @ [zr]\<rparr>)))))"

fun detect_loop :: "nat list \<Rightarrow> dstate \<Rightarrow> error + dstate" where
  "detect_loop [] st = Inr st"
| "detect_loop (i # is) st = ebind (detect_scale i st) (detect_loop is)"

text \<open>
  What \<open>forward\<close> returns: \<open>x\<close> in training, \<open>(torch.cat(z, 1), x)\<close> otherwise. The model
  returns with it the head and the store as the call leaves them.
\<close>

datatype det_out = Train "xval list" | Infer tensor3 "xval list"

definition detect_forward ::
  "detect \<Rightarrow> store \<Rightarrow> tensor4 list \<Rightarrow> error + det_out \<times> detect \<times> store" where
  "detect_forward d h x =
     ebind (detect_loop [0..<d_nl d]
              \<lparr>s_det = d, s_heap = h, s_x = map Input x, s_z = []\<rparr>) (\<lambda>st.
       if d_training d then Inr (Train (s_x st), s_det st, s_heap st)
       else
         ebind (cat1 (map (\<lambda>r. view3 (s_heap st ! r)) (s_z st))) (\<lambda>zc.
           Inr (Infer zc (s_x st), s_det st, s_heap st)))"

text \<open>
  The decoding as the specification words it, on one prediction \<open>row\<close> with the
  grid entry \<open>gr\<close> and the anchor-grid entry \<open>ar\<close> of its cell, and on a whole
  per-scale tensor.
\<close>

definition decoded_row :: "real \<Rightarrow> real list \<Rightarrow> real list \<Rightarrow> real list \<Rightarrow> real list" where
  "decoded_row s row gr ar =
     [(sigmoid (row ! 0) * 2 - 0.5 + gr ! 0) * s,
      (sigmoid (row ! 1) * 2 - 0.5 + gr ! 1) * s,
      (sigmoid (row ! 2) * 2) ^ 2 * ar ! 0,
      (sigmoid (row ! 3) * 2) ^ 2 * ar ! 1] @ map sigmoid (drop 4 row)"

definition decode_as_specified :: "real \<Rightarrow> tensor5 \<Rightarrow> tensor5 \<Rightarrow> tensor5 \<Rightarrow> tensor5" where
  "decode_as_specified s raw g ag =
     map (\<lambda>yb.
       map (\<lambda>a.
         map (\<lambda>j.
           map (\<lambda>k. decoded_row s (yb ! a ! j ! k) (g ! 0 ! a ! j ! k) (ag ! 0 ! a ! j ! k))
             [0..<length (yb ! a ! j)])
           [0..<length (yb ! a)])
         [0..<length yb]) raw"

text \<open>
  A convolution output of shape \<open>(bs, c, ny, nx)\<close>: every axis has the same length
  throughout.
\<close>

definition rect4 :: "tensor4 \<Rightarrow> nat \<Rightarrow> nat \<Rightarrow> nat \<Rightarrow> nat \<Rightarrow> bool" where
  "rect4 t bs c ny nx \<longleftrightarrow>
     length t = bs \<and>
     (\<forall>b\<in>set t. length b = c \<and>
        (\<forall>ch\<in>set b. length ch = ny \<and> (\<forall>r\<in>set ch. length r = nx)))"

text \<open>
  A per-scale tensor of shape \<open>(bs, na, ny, nx, .)\<close>.
\<close>

definition rect5 :: "tensor5 \<Rightarrow> nat \<Rightarrow> nat \<Rightarrow> nat \<Rightarrow> nat \<Rightarrow> bool" where
  "rect5 t bs na ny nx \<longleftrightarrow>
     length t = bs \<and>
     (\<forall>b<bs. length (t ! b) = na \<and>
        (\<forall>a<na. length (t ! b ! a) = ny \<and> (\<forall>j<ny. length (t ! b ! a ! j) = nx)))"

text \<open>Every prediction of a per-scale tensor has at least the four box entries.\<close>

definition rows_ge4 :: "tensor5 \<Rightarrow> bool" where
  "rows_ge4 y \<longleftrightarrow> (\<forall>yb\<in>set y. \<forall>ya\<in>set yb. \<forall>yj\<in>set ya. \<forall>row\<in>set yj. 4 \<le> length row)"

text \<open>
  Two heads that agree on every attribute that \<open>forward\<close> never assigns, and on
  the lengths of the two cache lists.
\<close>

definition same_static :: "detect \<Rightarrow> detect \<Rightarrow> bool" where
  "same_static d1 d2 \<longleftrightarrow>
     d_no d1 = d_no d2 \<and> d_nl d1 = d_nl d2 \<and> d_na d1 = d_na d2 \<and>
     d_anchors d1 = d_anchors d2 \<and> d_stride d1 = d_stride d2 \<and>
     d_inplace d1 = d_inplace d2 \<and> d_training d1 = d_training d2 \<and>
     d_onnx_dynamic d1 = d_onnx_dynamic d2 \<and> d_m d1 = d_m d2 \<and>
     length (d_grid d1) = length (d_grid d2) \<and>
     length (d_anchor_grid d1) = length (d_anchor_grid d2)"

text \<open>
  What lines 82 and 83 leave in the cache of scale \<open>i\<close>, for a head \<open>d\<close> and the
  convolution output \<open>c\<close> of that scale: \<open>G\<close> and \<open>AG\<close> are the entries of \<open>self.grid\<close>
  and \<open>self.anchor_grid\<close> afterwards.
\<close>

definition grid_rule :: "detect \<Rightarrow> nat \<Rightarrow> tensor4 \<Rightarrow> slot \<Rightarrow> slot \<Rightarrow> bool" where
  "grid_rule d i c G AG \<longleftrightarrow>
     (case shape4 c of (bs, ch, ny, nx) \<Rightarrow>
        if d_onnx_dynamic d \<or> slot_shape24 (d_grid d ! i) \<noteq> [ny, nx]
        then (\<exists>g ag. make_grid d nx ny i = Inr (g, ag) \<and> G = T5 g \<and> AG = T5 ag)
        else G = d_grid d ! i \<and> AG = d_anchor_grid d ! i)"

text \<open>Reading an entry of the returned \<open>x\<close> in a store.\<close>

definition deref :: "store \<Rightarrow> xval \<Rightarrow> tensor5 option" where
  "deref h v = (case v of Input t \<Rightarrow> None | Ref r \<Rightarrow> if r < length h then Some (h ! r) else None)"

text \<open>
  A head with one scale, one anchor of 10 by 20 and one class (6 outputs), stride
  8, whose convolution is the identity; and a 1 by 2 feature map of zeros.
\<close>

definition demo_head :: "bool \<Rightarrow> bool \<Rightarrow> detect" where
  "demo_head training inplace =
     \<lparr>d_no = 6, d_nl = 1, d_na = 1, d_anchors = [[[1.25, 2.5]]], d_stride = [8],
      d_grid = [Zeros1], d_anchor_grid = [Zeros1], d_inplace = inplace,
      d_training = training, d_onnx_dynamic = False, d_m = [Inr]\<rparr>"

definition demo_map :: tensor4 where
  "demo_map = [[[[0, 0]], [[0, 0]], [[0, 0]], [[0, 0]], [[0, 0]], [[0, 0]]]]"

text \<open>
  The same head in inference with a cache of the right spatial size whose entries
  are not what \<open>_make_grid\<close> would build.
\<close>

definition demo_cached :: detect where
  "demo_cached =
     (demo_head False True)\<lparr>d_grid := [T5 [[[[[5, 5], [5, 5]]]]]],
                             d_anchor_grid := [T5 [[[[[1, 1], [1, 1]]]]]]\<rparr>"

section \<open>Theorems\<close>

subsection \<open>Sequencing and lists\<close>

lemma ebind_Inr_iff: "ebind a k = Inr y \<longleftrightarrow> (\<exists>x. a = Inr x \<and> k x = Inr y)"
  by (cases a) auto

lemma ebind_Inl_iff: "ebind a k = Inl e \<longleftrightarrow> (a = Inl e \<or> (\<exists>x. a = Inr x \<and> k x = Inl e))"
  by (cases a) auto

lemma emap_Inr_nth:
  "emap g xs = Inr ys \<Longrightarrow> length ys = length xs \<and> (\<forall>i<length xs. g (xs ! i) = Inr (ys ! i))"
proof (induction xs arbitrary: ys)
  case Nil
  then show ?case by simp
next
  case (Cons x xs)
  from Cons.prems obtain v vs where
    v: "g x = Inr v" and vs: "emap g xs = Inr vs" and ys: "ys = v # vs"
    by (auto simp: ebind_Inr_iff)
  from Cons.IH [OF vs] v ys show ?case
    by (auto simp: nth_Cons split: nat.splits)
qed

text \<open>
  A list of rows of one width, flattened: entry \<open>c\<close> of row \<open>a\<close> stands at \<open>a * w + c\<close>.
\<close>

lemma nth_concat_uniform:
  assumes "\<forall>r\<in>set rows. length r = w" and "a < length rows" and "c < w"
  shows "concat rows ! (a * w + c) = rows ! a ! c"
  using assms
proof (induction rows arbitrary: a)
  case Nil
  then show ?case by simp
next
  case (Cons r rows)
  show ?case
  proof (cases a)
    case 0
    with Cons.prems show ?thesis by (simp add: nth_append)
  next
    case (Suc a')
    with Cons.prems have "concat rows ! (a' * w + c) = rows ! a' ! c"
      by (intro Cons.IH) simp_all
    with Cons.prems Suc show ?thesis
      by (simp add: nth_append)
  qed
qed

lemma length_concat_uniform:
  assumes "\<forall>r\<in>set rows. length r = w"
  shows "length (concat rows) = length rows * w"
  using assms by (induction rows) simp_all

subsection \<open>C1: tail clipping\<close>

text \<open>
  C1, as stated, fails: with three passes of 21 one-number predictions each, the code
  drops the last entry of the first pass and the first 16 entries of the last pass,
  where the claim drops the first entry of the first pass and the last entry of the
  last pass.
\<close>

theorem clip_augmented_counterexample:
  "clip_augmented 3
     [[map (\<lambda>p. [p]) [0..<21]], [map (\<lambda>p. [p]) [0..<21]], [map (\<lambda>p. [p]) [0..<21]]]
   \<noteq> Inr (clip_as_specified
     [[map (\<lambda>p. [p]) [0..<21]], [map (\<lambda>p. [p]) [0..<21]], [map (\<lambda>p. [p]) [0..<21]]])"
  by (simp add: clip_augmented_def clip_as_specified_def slice_to_neg_def shape1_def upt_rec)

text \<open>
  C1, amended: for 3 detection scales and a first pass of at least 21 predictions,
  clipping removes exactly \<open>n0 div 21\<close> entries from the tail of the first
  (original-scale) pass and \<open>(n2 div 21) * 16\<close> entries from the head of the last
  pass, and leaves the middle pass untouched.
\<close>

theorem clip_augmented_three:
  assumes "21 \<le> shape1 a"
  shows "clip_augmented 3 [a, b, c] =
           Inr [map (\<lambda>r. take (length r - shape1 a div 21) r) a,
                b,
                map (drop (shape1 c div 21 * 16)) c]"
proof -
  have g: "(\<Sum>x\<leftarrow>[0..<3]. (4::nat) ^ x) = 21"
    by (simp add: upt_rec)
  have pos: "shape1 a div 21 \<noteq> 0"
    using assms by simp
  show ?thesis
    using pos by (simp add: clip_augmented_def g slice_to_neg_def Let_def)
qed

theorem clip_augmented_three_witness:
  "clip_augmented 3 [[[1, 2 :: nat] @ replicate 20 0], [[7]], [replicate 16 0 @ [1, 2, 3, 4, 5]]]
     = Inr [[[1, 2] @ replicate 19 0], [[7]], [[1, 2, 3, 4, 5]]]"
proof -
  have h: "21 \<le> shape1 [[1, 2 :: nat] @ replicate 20 0]"
    by (simp add: shape1_def)
  show ?thesis
    using clip_augmented_three [OF h, of "[[7]]" "[replicate 16 0 @ [1, 2, 3, 4, 5]]"]
    by (simp add: shape1_def)
qed

subsection \<open>C7: routing of inputs and the output history\<close>

lemma gather_length: "gather js x y = Inr vs \<Longrightarrow> length vs = length js"
  by (induction js arbitrary: vs) (auto split: sum.splits if_splits)

lemma gather_nth:
  "gather js x y = Inr vs \<Longrightarrow> p < length js \<Longrightarrow>
     (if js ! p = -1 then vs ! p = Some x else py_index y (js ! p) = Inr (vs ! p))"
proof (induction js arbitrary: vs p)
  case Nil
  then show ?case by simp
next
  case (Cons j js)
  then show ?case
    by (cases p) (auto split: sum.splits if_splits)
qed

text \<open>
  The loop invariant: a run that returns extends the history and the trace by one
  entry per layer; the \<open>k\<close>-th layer was resolved against the output before it and
  the first \<open>k\<close> new history slots.
\<close>

lemma forward_loop_inv:
  "forward_loop ms save x y tr = Inr (xo, yo, tro) \<Longrightarrow>
     \<exists>y' tr'. yo = y @ y' \<and> tro = tr @ tr' \<and> length y' = length ms \<and> length tr' = length ms \<and>
       xo = last (x # map snd tr') \<and>
       (\<forall>k<length ms.
          resolve_input (lf (ms ! k)) ((x # map snd tr') ! k) (y @ take k y') = Inr (fst (tr' ! k)) \<and>
          lrun (ms ! k) (fst (tr' ! k)) = Inr (snd (tr' ! k)) \<and>
          y' ! k = (if li (ms ! k) \<in> set save then Some (snd (tr' ! k)) else None))"
proof (induction ms arbitrary: x y tr)
  case Nil
  then show ?case by simp
next
  case (Cons m ms)
  from Cons.prems obtain inp x' where
    r: "resolve_input (lf m) x y = Inr inp" and
    l: "lrun m inp = Inr x'" and
    rest: "forward_loop ms save x' (y @ [if li m \<in> set save then Some x' else None])
             (tr @ [(inp, x')]) = Inr (xo, yo, tro)"
    by (auto split: sum.splits)
  from Cons.IH [OF rest] obtain y' tr' where
    a: "yo = (y @ [if li m \<in> set save then Some x' else None]) @ y'"
       "tro = (tr @ [(inp, x')]) @ tr'"
       "length y' = length ms" "length tr' = length ms"
       "xo = last (x' # map snd tr')" and
    b: "\<forall>k<length ms.
          resolve_input (lf (ms ! k)) ((x' # map snd tr') ! k)
            ((y @ [if li m \<in> set save then Some x' else None]) @ take k y') = Inr (fst (tr' ! k)) \<and>
          lrun (ms ! k) (fst (tr' ! k)) = Inr (snd (tr' ! k)) \<and>
          y' ! k = (if li (ms ! k) \<in> set save then Some (snd (tr' ! k)) else None)"
    by blast
  let ?s = "if li m \<in> set save then Some x' else None"
  let ?y = "?s # y'" and ?t = "(inp, x') # tr'"
  have "\<forall>k<length (m # ms).
          resolve_input (lf ((m # ms) ! k)) ((x # map snd ?t) ! k) (y @ take k ?y) = Inr (fst (?t ! k)) \<and>
          lrun ((m # ms) ! k) (fst (?t ! k)) = Inr (snd (?t ! k)) \<and>
          ?y ! k = (if li ((m # ms) ! k) \<in> set save then Some (snd (?t ! k)) else None)"
  proof (intro allI impI)
    fix k assume k: "k < length (m # ms)"
    show "resolve_input (lf ((m # ms) ! k)) ((x # map snd ?t) ! k) (y @ take k ?y) = Inr (fst (?t ! k)) \<and>
          lrun ((m # ms) ! k) (fst (?t ! k)) = Inr (snd (?t ! k)) \<and>
          ?y ! k = (if li ((m # ms) ! k) \<in> set save then Some (snd (?t ! k)) else None)"
    proof (cases k)
      case 0
      then show ?thesis using r l by simp
    next
      case (Suc k')
      with k have "k' < length ms" by simp
      with b Suc show ?thesis by simp
    qed
  qed
  moreover have "yo = y @ ?y" "tro = tr @ ?t" "length ?y = length (m # ms)"
    "length ?t = length (m # ms)" "xo = last (x # map snd ?t)"
    using a by simp_all
  ultimately show ?case by blast
qed


text \<open>
  C7: in a forward pass that returns, the \<open>k\<close>-th layer is called with the output of
  the layer before it (the network input for \<open>k = 0\<close>) when its source is \<open>-1\<close>; with
  the history entry \<open>y[f]\<close> (as the history stands before the layer runs) when its
  source is an int \<open>f\<close>; and, for a multi-source layer, with the list that has the
  preceding output at each \<open>-1\<close> and the history entry at every other position. After
  the layer has run, its history slot holds its output if \<open>m.i\<close> is in the save list,
  and \<open>None\<close> otherwise.
\<close>

theorem forward_once_routing:
  assumes "forward_once model save x0 = Inr (out, y, tr)"
  shows "length y = length model \<and> length tr = length model \<and>
         out = last (x0 # map snd tr) \<and>
         (\<forall>k<length model.
            lrun (model ! k) (fst (tr ! k)) = Inr (snd (tr ! k)) \<and>
            (lf (model ! k) = Single (-1) \<longrightarrow>
               fst (tr ! k) = One (Some ((x0 # map snd tr) ! k))) \<and>
            (\<forall>f. lf (model ! k) = Single f \<and> f \<noteq> -1 \<longrightarrow>
               (\<exists>v. py_index (take k y) f = Inr v \<and> fst (tr ! k) = One v)) \<and>
            (\<forall>fs. lf (model ! k) = Multi fs \<longrightarrow>
               (\<exists>vs. fst (tr ! k) = Many vs \<and> length vs = length fs \<and>
                  (\<forall>p<length fs.
                     if fs ! p = -1 then vs ! p = Some ((x0 # map snd tr) ! k)
                     else py_index (take k y) (fs ! p) = Inr (vs ! p)))) \<and>
            y ! k = (if li (model ! k) \<in> set save then Some (snd (tr ! k)) else None))"
proof -
  from assms have "forward_loop model save x0 [] [] = Inr (out, y, tr)"
    by (simp add: forward_once_def)
  from forward_loop_inv [OF this] have
    len: "length y = length model" "length tr = length model" and
    out: "out = last (x0 # map snd tr)" and
    inv: "\<forall>k<length model.
          resolve_input (lf (model ! k)) ((x0 # map snd tr) ! k) (take k y) = Inr (fst (tr ! k)) \<and>
          lrun (model ! k) (fst (tr ! k)) = Inr (snd (tr ! k)) \<and>
          y ! k = (if li (model ! k) \<in> set save then Some (snd (tr ! k)) else None)"
    by auto
  have "\<forall>k<length model.
            lrun (model ! k) (fst (tr ! k)) = Inr (snd (tr ! k)) \<and>
            (lf (model ! k) = Single (-1) \<longrightarrow>
               fst (tr ! k) = One (Some ((x0 # map snd tr) ! k))) \<and>
            (\<forall>f. lf (model ! k) = Single f \<and> f \<noteq> -1 \<longrightarrow>
               (\<exists>v. py_index (take k y) f = Inr v \<and> fst (tr ! k) = One v)) \<and>
            (\<forall>fs. lf (model ! k) = Multi fs \<longrightarrow>
               (\<exists>vs. fst (tr ! k) = Many vs \<and> length vs = length fs \<and>
                  (\<forall>p<length fs.
                     if fs ! p = -1 then vs ! p = Some ((x0 # map snd tr) ! k)
                     else py_index (take k y) (fs ! p) = Inr (vs ! p)))) \<and>
            y ! k = (if li (model ! k) \<in> set save then Some (snd (tr ! k)) else None)"
  proof (intro allI impI)
    fix k assume k: "k < length model"
    let ?m = "model ! k" and ?prev = "(x0 # map snd tr) ! k" and ?h = "take k y"
    from inv k have
      r: "resolve_input (lf ?m) ?prev ?h = Inr (fst (tr ! k))" and
      l: "lrun ?m (fst (tr ! k)) = Inr (snd (tr ! k))" and
      s: "y ! k = (if li ?m \<in> set save then Some (snd (tr ! k)) else None)"
      by auto
    have c1: "lf ?m = Single (-1) \<longrightarrow> fst (tr ! k) = One (Some ?prev)"
      using r by auto
    have c2: "\<forall>f. lf ?m = Single f \<and> f \<noteq> -1 \<longrightarrow>
               (\<exists>v. py_index ?h f = Inr v \<and> fst (tr ! k) = One v)"
      using r by (auto split: sum.splits)
    have c3: "\<forall>fs. lf ?m = Multi fs \<longrightarrow>
               (\<exists>vs. fst (tr ! k) = Many vs \<and> length vs = length fs \<and>
                  (\<forall>p<length fs.
                     if fs ! p = -1 then vs ! p = Some ?prev
                     else py_index ?h (fs ! p) = Inr (vs ! p)))"
    proof (intro allI impI)
      fix fs assume m: "lf ?m = Multi fs"
      with r obtain vs where g: "gather fs ?prev ?h = Inr vs" and i: "fst (tr ! k) = Many vs"
        by (auto split: sum.splits)
      from gather_length [OF g] gather_nth [OF g] i
      show "\<exists>vs. fst (tr ! k) = Many vs \<and> length vs = length fs \<and>
                  (\<forall>p<length fs.
                     if fs ! p = -1 then vs ! p = Some ?prev
                     else py_index ?h (fs ! p) = Inr (vs ! p))"
        by blast
    qed
    from l c1 c2 c3 s
    show "lrun ?m (fst (tr ! k)) = Inr (snd (tr ! k)) \<and>
            (lf ?m = Single (-1) \<longrightarrow> fst (tr ! k) = One (Some ?prev)) \<and>
            (\<forall>f. lf ?m = Single f \<and> f \<noteq> -1 \<longrightarrow>
               (\<exists>v. py_index ?h f = Inr v \<and> fst (tr ! k) = One v)) \<and>
            (\<forall>fs. lf ?m = Multi fs \<longrightarrow>
               (\<exists>vs. fst (tr ! k) = Many vs \<and> length vs = length fs \<and>
                  (\<forall>p<length fs.
                     if fs ! p = -1 then vs ! p = Some ?prev
                     else py_index ?h (fs ! p) = Inr (vs ! p)))) \<and>
            y ! k = (if li ?m \<in> set save then Some (snd (tr ! k)) else None)"
      by blast
  qed
  with len out show ?thesis by blast
qed

text \<open>
  The theorem at the four-layer model with save list \<open>[0, 2]\<close> and input 1.
\<close>

lemma demo_run:
  "forward_once demo_model [0, 2] 1 =
     Inr (6, [Some 2, None, Some 5, None],
          [(One (Some 1), 2), (One (Some 2), 3), (Many [Some 3, Some 2], 5), (One (Some 5), 6)])"
  by (simp add: forward_once_def demo_model_def add_one_def add_all_def py_index_def)

theorem forward_once_routing_witness:
  "forward_once demo_model [0, 2] 1 =
     Inr (6, [Some 2, None, Some 5, None],
          [(One (Some 1), 2), (One (Some 2), 3), (Many [Some 3, Some 2], 5), (One (Some 5), 6)]) \<and>
   [Some 2, None, Some 5, None] ! 2 = Some (5::int) \<and>
   [Some 2, None, Some 5, None :: int option] ! 1 = None"
proof -
  let ?y = "[Some 2, None, Some 5, None :: int option]"
  let ?tr = "[(One (Some 1), 2), (One (Some 2), 3), (Many [Some 3, Some 2], 5),
              (One (Some 5), 6)] :: (int input \<times> int) list"
  note all = forward_once_routing [OF demo_run, THEN conjunct2, THEN conjunct2, THEN conjunct2,
    rule_format]
  have k2: "(2::nat) < length demo_model" and k1: "(1::nat) < length demo_model"
    by (simp_all add: demo_model_def)
  have a: "?y ! 2 = (if li (demo_model ! 2) \<in> set [0, 2] then Some (snd (?tr ! 2)) else None)"
    using all [OF k2] by blast
  have b: "?y ! 1 = (if li (demo_model ! 1) \<in> set [0, 2] then Some (snd (?tr ! 1)) else None)"
    using all [OF k1] by blast
  have "?y ! 2 = Some 5" "?y ! 1 = None"
    using a b by (simp_all add: demo_model_def)
  with demo_run show ?thesis
    by blast
qed

subsection \<open>C4: the save list\<close>

lemma save_refs_Inr:
  "save_refs i f = Inr refs \<Longrightarrow> refs = map (\<lambda>x. x mod int i) (filter (\<lambda>x. x \<noteq> -1) (sources f))"
  by (auto simp: save_refs_def Let_def split: if_splits)

lemma parse_step_save:
  assumes "parse_step no gd gw i (f, n, m, args) st = Inr st'"
  shows "st_save st' = st_save st @ map (\<lambda>x. x mod int i) (filter (\<lambda>x. x \<noteq> -1) (sources f))"
  using assms
  by (auto simp: parse_step_def ebind_Inr_iff dest!: save_refs_Inr)

lemma parse_loop_save:
  "parse_loop no gd gw i specs st = Inr st' \<Longrightarrow> st_save st' = st_save st @ all_refs i specs"
proof (induction specs arbitrary: i st)
  case Nil
  then show ?case by simp
next
  case (Cons spec specs)
  obtain f n m args where spec: "spec = (f, n, m, args)"
    by (cases spec) auto
  from Cons.prems obtain st1 where
    s: "parse_step no gd gw i spec st = Inr st1" and
    r: "parse_loop no gd gw (Suc i) specs st1 = Inr st'"
    by (auto simp: ebind_Inr_iff)
  from parse_step_save [OF s [unfolded spec]] Cons.IH [OF r] spec
  show ?case by simp
qed

lemma all_refs_mem:
  "i < length specs \<Longrightarrow> x \<in> set (sources (fst (specs ! i))) \<Longrightarrow> x \<noteq> -1 \<Longrightarrow>
     x mod int (k + i) \<in> set (all_refs k specs)"
proof (induction specs arbitrary: i k)
  case Nil
  then show ?case by simp
next
  case (Cons spec specs)
  obtain f n m args where spec: "spec = (f, n, m, args)"
    by (cases spec) auto
  show ?case
  proof (cases i)
    case 0
    with Cons.prems spec show ?thesis by auto
  next
    case (Suc j)
    with Cons.prems have "j < length specs" "x \<in> set (sources (fst (specs ! j)))"
      by simp_all
    from Cons.IH [OF this Cons.prems(3), of "Suc k"] Suc spec
    show ?thesis by simp
  qed
qed

text \<open>
  C4, amended: for every layer-spec list on which the build returns, the save list
  is the ascending-sorted list of all source indices other than \<open>-1\<close>, each taken
  modulo the index of the layer that names it, with one entry per reference: every
  index referenced (directly or inside a multi-source list) is present and the
  sequence is sorted ascending.
\<close>

theorem save_list_sorted_refs:
  assumes "parse_model d chs = Inr (ls, sv)"
  shows "sv = sort (all_refs 0 (backbone d @ head d)) \<and> sorted sv \<and>
         (\<forall>i<length (backbone d @ head d).
            \<forall>x\<in>set (sources (fst ((backbone d @ head d) ! i))).
              x \<noteq> -1 \<longrightarrow> x mod int i \<in> set sv)"
proof -
  from assms obtain na c2 st where
    run: "parse_loop (na * (nc d + 5)) (depth_multiple d) (width_multiple d) 0
            (backbone d @ head d)
            \<lparr>st_layers = [], st_save = [], st_c2 = c2, st_ch = chs\<rparr> = Inr st" and
    sv: "sv = sort (st_save st)"
    by (auto simp: parse_model_def ebind_Inr_iff Let_def)
  from parse_loop_save [OF run] sv
  have eq: "sv = sort (all_refs 0 (backbone d @ head d))"
    by simp
  moreover have "sorted sv"
    using eq by simp
  moreover have "\<forall>i<length (backbone d @ head d).
            \<forall>x\<in>set (sources (fst ((backbone d @ head d) ! i))).
              x \<noteq> -1 \<longrightarrow> x mod int i \<in> set sv"
    using all_refs_mem [of _ "backbone d @ head d" _ 0] eq by simp
  ultimately show ?thesis by blast
qed

text \<open>
  A build in which two layers name layer 0: the save list is \<open>[0, 0]\<close>.
\<close>

lemma cfg_twice_run:
  "parse_model cfg_twice [3] =
     Inr ([\<lparr>b_i = 0, b_f = Single (- 1), b_type = ''Conv'',
              b_args = [PInt 3, PInt 32, PInt 6, PInt 2, PInt 2], b_n = 1\<rparr>,
           \<lparr>b_i = 1, b_f = Single (- 1), b_type = ''C3'',
              b_args = [PInt 32, PInt 64, PInt 1], b_n = 1\<rparr>,
           \<lparr>b_i = 2, b_f = Multi [- 1, 0], b_type = ''Concat'', b_args = [PInt 1], b_n = 1\<rparr>,
           \<lparr>b_i = 3, b_f = Multi [- 1, 0], b_type = ''Concat'', b_args = [PInt 1], b_n = 1\<rparr>],
          [0, 0])"
  by code_simp

text \<open>
  C4, as stated, fails: an index named by two layers stands twice in the save list,
  not exactly once.
\<close>

theorem save_list_counterexample:
  "map_sum id snd (parse_model cfg_twice [3]) = Inr [0, 0] \<and> \<not> distinct [0 :: int, 0]"
  by (simp add: cfg_twice_run)

theorem save_list_sorted_refs_witness:
  "map_sum id snd (parse_model cfg_twice [3]) = Inr [0, 0] \<and>
   [0, 0] = sort (all_refs 0 (backbone cfg_twice @ head cfg_twice)) \<and>
   (0 :: int) mod int 3 \<in> set [0 :: int, 0]"
proof -
  note t = save_list_sorted_refs [OF cfg_twice_run]
  from t have a: "[0, 0] = sort (all_refs 0 (backbone cfg_twice @ head cfg_twice))"
    by blast
  have b: "map_sum id snd (parse_model cfg_twice [3]) = Inr [0, 0]"
    by (simp add: cfg_twice_run)
  have c: "(0 :: int) mod int 3 \<in> set [0 :: int, 0]"
    by simp
  from a b c show ?thesis
    by blast
qed

subsection \<open>C8: forward and self references\<close>

lemma emap_fails:
  "\<exists>x\<in>set xs. \<exists>e. g x = Inl e \<Longrightarrow> \<exists>e. emap g xs = Inl e"
proof (induction xs)
  case Nil
  then show ?case by simp
next
  case (Cons a xs)
  show ?case
  proof (cases "g a")
    case (Inl e)
    then show ?thesis by simp
  next
    case (Inr v)
    with Cons.prems have "\<exists>x\<in>set xs. \<exists>e. g x = Inl e"
      by auto
    from Cons.IH [OF this] obtain e where "emap g xs = Inl e" ..
    with Inr show ?thesis by simp
  qed
qed

lemma py_index_beyond: "int (length xs) \<le> k \<Longrightarrow> py_index xs k = Inl IndexError"
  by (simp add: py_index_def)

lemma ch_at_fails:
  assumes "\<exists>x\<in>set (sources f). int (length chs) \<le> x"
  shows "\<exists>e. ch_at chs f = Inl e"
  using assms by (cases f) (auto simp: py_index_beyond)

lemma ch_all_fails:
  assumes "\<exists>x\<in>set (sources f). int (length chs) \<le> x"
  shows "\<exists>e. ch_all chs f = Inl e"
proof (cases f)
  case (Single k)
  then show ?thesis by simp
next
  case (Multi ks)
  with assms obtain x where "x \<in> set ks" "int (length chs) \<le> x"
    by auto
  then have "\<exists>x\<in>set ks. \<exists>e. py_index chs x = Inl e"
    using py_index_beyond by blast
  from emap_fails [OF this] Multi show ?thesis by simp
qed

lemma RepBlock_family3: "''RepBlock'' \<in> set family3"
  by (simp add: family3_def)

lemma resolve_layer_fails:
  assumes bad: "\<exists>x\<in>set (sources f). int (length chs) \<le> x"
    and m: "m \<notin> set passthrough_family"
  shows "\<exists>e. resolve_layer no gw chs c2 f n m args = Inl e"
proof -
  from ch_at_fails [OF bad] obtain e1 where a: "ch_at chs f = Inl e1" ..
  from ch_all_fails [OF bad] obtain e2 where b: "ch_all chs f = Inl e2" ..
  from m have p: "m \<noteq> ''ConvNeXt''" "m \<notin> set replknet_family" "m \<noteq> ''HorNet''"
    "m \<notin> set torchvision_family"
    by (simp_all add: passthrough_family_def)
  have r: "m = ''RepBlock'' \<Longrightarrow> m \<in> set family3"
    using RepBlock_family3 by simp
  show ?thesis
    unfolding resolve_layer_def scaled_rule_def scaled_pair_def detect_rule_def
    using p r by (simp add: a b)
qed

lemma parse_step_fails:
  assumes bad: "\<exists>x\<in>set (sources f). int i \<le> x"
    and m: "i = 0 \<or> m \<notin> set passthrough_family"
    and len: "i = 0 \<or> length (st_ch st) = i"
  shows "\<exists>e. parse_step no gd gw i (f, n, m, args) st = Inl e"
proof (cases "i = 0")
  case True
  with bad obtain x where x: "x \<in> set (sources f)" "0 \<le> x"
    by auto
  then have "x \<in> set (sources f) \<and> x \<noteq> -1"
    by simp
  then have "filter (\<lambda>x. x \<noteq> -1) (sources f) \<noteq> []"
    unfolding filter_empty_conv by blast
  with True have s: "save_refs i f = Inl ZeroDivisionError"
    by (simp add: save_refs_def)
  show ?thesis
  proof (cases "resolve_layer no gw (st_ch st) (st_c2 st) f (depth_gain gd n) m args")
    case (Inl e)
    then show ?thesis by (simp add: parse_step_def)
  next
    case (Inr v)
    with s show ?thesis by (simp add: parse_step_def split: prod.splits)
  qed
next
  case False
  with len bad have "\<exists>x\<in>set (sources f). int (length (st_ch st)) \<le> x"
    by simp
  moreover from False m have "m \<notin> set passthrough_family"
    by simp
  ultimately obtain e where
    "resolve_layer no gw (st_ch st) (st_c2 st) f (depth_gain gd n) m args = Inl e"
    using resolve_layer_fails by blast
  then show ?thesis by (simp add: parse_step_def)
qed

lemma parse_step_ch_length:
  assumes "parse_step no gd gw i spec st = Inr st'" and "i = 0 \<or> length (st_ch st) = i"
  shows "length (st_ch st') = Suc i"
  using assms by (cases spec) (auto simp: parse_step_def ebind_Inr_iff)

lemma parse_loop_fails:
  assumes "k < length specs" and "specs ! k = (f, n, m, args)"
    and "\<exists>x\<in>set (sources f). int (i + k) \<le> x"
    and "i + k = 0 \<or> m \<notin> set passthrough_family"
    and "i = 0 \<or> length (st_ch st) = i"
  shows "\<exists>e. parse_loop no gd gw i specs st = Inl e"
  using assms
proof (induction specs arbitrary: i k st)
  case Nil
  then show ?case by simp
next
  case (Cons spec specs)
  show ?case
  proof (cases k)
    case 0
    with Cons.prems have "spec = (f, n, m, args)" "\<exists>x\<in>set (sources f). int i \<le> x"
      "i = 0 \<or> m \<notin> set passthrough_family"
      by simp_all
    with parse_step_fails [OF this(2,3) Cons.prems(5), of no gd gw n args]
    show ?thesis by auto
  next
    case (Suc j)
    show ?thesis
    proof (cases "parse_step no gd gw i spec st")
      case (Inl e)
      then show ?thesis by simp
    next
      case (Inr st1)
      from parse_step_ch_length [OF Inr Cons.prems(5)]
      have l: "Suc i = 0 \<or> length (st_ch st1) = Suc i" by simp
      from Cons.prems Suc have "j < length specs" "specs ! j = (f, n, m, args)"
        "\<exists>x\<in>set (sources f). int (Suc i + j) \<le> x"
        "Suc i + j = 0 \<or> m \<notin> set passthrough_family"
        by simp_all
      from Cons.IH [OF this l] Inr
      show ?thesis by simp
    qed
  qed
qed

text \<open>
  C8, amended: if a spec names a source index greater than or equal to its own
  position, and the spec is the first one or its module is not one of the
  pass-through stages (\<open>ConvNeXt\<close>, \<open>HorNet\<close>, the \<open>RepLKNet\<close> stages and the
  \<open>RegNet\<close>, \<open>Efficient\<close> and \<open>MobileNet\<close> backbones, whose branch takes the output
  channels from \<open>args[0]\<close> and never reads the channel trace), then the build raises
  an exception and returns no model. Which exception it is depends on the first
  fault the loop meets; the code has no error type of its own.
\<close>

theorem forward_reference_fails:
  assumes "k < length (backbone d @ head d)"
    and "(backbone d @ head d) ! k = (f, n, m, args)"
    and "\<exists>x\<in>set (sources f). int k \<le> x"
    and "k = 0 \<or> m \<notin> set passthrough_family"
  shows "\<exists>e. parse_model d chs = Inl e"
proof (cases "num_anchors (anchors d)")
  case (Inl e)
  then show ?thesis by (simp add: parse_model_def)
next
  case (Inr na)
  show ?thesis
  proof (cases "py_index chs (-1)")
    case (Inl e)
    with Inr show ?thesis by (simp add: parse_model_def)
  next
    case c: (Inr c2)
    have "\<exists>e. parse_loop (na * (nc d + 5)) (depth_multiple d) (width_multiple d) 0
            (backbone d @ head d)
            \<lparr>st_layers = [], st_save = [], st_c2 = c2, st_ch = chs\<rparr> = Inl e"
      by (rule parse_loop_fails [OF assms(1,2)]) (use assms(3,4) in simp_all)
    then obtain e where "parse_loop (na * (nc d + 5)) (depth_multiple d) (width_multiple d) 0
            (backbone d @ head d)
            \<lparr>st_layers = [], st_save = [], st_c2 = c2, st_ch = chs\<rparr> = Inl e" ..
    with Inr c show ?thesis by (simp add: parse_model_def)
  qed
qed

text \<open>
  C8, as stated, fails: layer 1 names index 3, its module \<open>RegNet1\<close> takes its output
  channels from \<open>args[0]\<close> without reading the trace, and the build returns a model
  (with \<open>3 % 1 = 0\<close> in the save list).
\<close>

theorem forward_reference_counterexample:
  "parse_model (cfg_forward ''RegNet1'') [3] =
     Inr ([\<lparr>b_i = 0, b_f = Single (- 1), b_type = ''Conv'',
              b_args = [PInt 3, PInt 32, PInt 6, PInt 2, PInt 2], b_n = 1\<rparr>,
           \<lparr>b_i = 1, b_f = Single 3, b_type = ''RegNet1'', b_args = [PInt 40], b_n = 1\<rparr>],
          [0])"
  by code_simp

text \<open>
  The same holds of every pass-through module in that place: none of them fails on
  the forward reference.
\<close>

lemma passthrough_forward_builds:
  assumes "m \<in> set passthrough_family"
  shows "\<exists>ls. parse_model (cfg_forward m) [3] = Inr (ls, [0])"
proof -
  have "list_all (\<lambda>m. case parse_model (cfg_forward m) [3] of
                        Inr (ls, sv) \<Rightarrow> sv = [0] | Inl e \<Rightarrow> False) passthrough_family"
    by code_simp
  with assms have "case parse_model (cfg_forward m) [3] of
                        Inr (ls, sv) \<Rightarrow> sv = [0] | Inl e \<Rightarrow> False"
    by (simp add: list_all_iff)
  then show ?thesis by (auto split: sum.splits)
qed

text \<open>
  Three runs. The forward reference of layer 1 under \<open>Conv\<close>, which reads \<open>ch[3]\<close> of
  a one-element trace: IndexError. A list source \<open>[5]\<close> under \<open>Conv\<close>: \<open>ch[f]\<close> is
  indexed by a list, TypeError. The pass-through \<open>RegNet1\<close> as first spec, naming
  itself: its branch passes, then \<open>0 % 0\<close> raises ZeroDivisionError.
\<close>

lemma cfg_forward_Conv: "parse_model (cfg_forward ''Conv'') [3] = Inl IndexError"
  by code_simp

lemma cfg_forward_list:
  "parse_model ((cfg_forward ''Conv'') \<lparr>backbone :=
       [(Single (-1), 1, ''Conv'', [PInt 64, PInt 6, PInt 2, PInt 2]),
        (Multi [5], 1, ''Conv'', [PInt 40])]\<rparr>) [3] = Inl TypeError"
  by code_simp

lemma cfg_self_RegNet1: "parse_model (cfg_self ''RegNet1'') [3] = Inl ZeroDivisionError"
  by code_simp

theorem forward_reference_fails_witness:
  "(\<exists>e. parse_model (cfg_forward ''Conv'') [3] = Inl e) \<and>
   parse_model (cfg_forward ''Conv'') [3] = Inl IndexError \<and>
   (\<exists>e. parse_model (cfg_self ''RegNet1'') [3] = Inl e) \<and>
   parse_model (cfg_self ''RegNet1'') [3] = Inl ZeroDivisionError"
proof -
  have k: "1 < length (backbone (cfg_forward ''Conv'') @ head (cfg_forward ''Conv''))"
    by (simp add: cfg_forward_def)
  have s: "(backbone (cfg_forward ''Conv'') @ head (cfg_forward ''Conv'')) ! 1 =
             (Single 3, 1, ''Conv'', [PInt 40])"
    by (simp add: cfg_forward_def)
  have b: "\<exists>x\<in>set (sources (Single 3)). int 1 \<le> x"
    by simp
  have m: "1 = (0 :: nat) \<or> ''Conv'' \<notin> set passthrough_family"
    by (simp add: passthrough_family_def replknet_family_def torchvision_family_def)
  have k0: "0 < length (backbone (cfg_self ''RegNet1'') @ head (cfg_self ''RegNet1''))"
    by (simp add: cfg_self_def)
  have s0: "(backbone (cfg_self ''RegNet1'') @ head (cfg_self ''RegNet1'')) ! 0 =
             (Single 0, 1, ''RegNet1'', [PInt 40])"
    by (simp add: cfg_self_def)
  have b0: "\<exists>x\<in>set (sources (Single 0)). int 0 \<le> x"
    by simp
  have m0: "0 = (0 :: nat) \<or> ''RegNet1'' \<notin> set passthrough_family"
    by simp
  from forward_reference_fails [OF k s b m, of "[3]"]
    forward_reference_fails [OF k0 s0 b0 m0, of "[3]"]
    cfg_forward_Conv cfg_self_RegNet1
  show ?thesis by blast
qed

subsection \<open>C2: width scaling\<close>

text \<open>
  The nearest multiple of 8 (a tie going up) lies within 4 of the raw value.
\<close>

lemma nearest_multiple_bounds:
  fixes x :: real
  defines "q \<equiv> \<lfloor>x + 4\<rfloor> div 8"
  shows "of_int (8 * q) - 4 \<le> x" and "x < of_int (8 * q) + 4"
proof -
  have "8 * q \<le> \<lfloor>x + 4\<rfloor>" and "\<lfloor>x + 4\<rfloor> \<le> 8 * q + 7"
    unfolding q_def by presburger+
  then have "of_int (8 * q) \<le> x + 4" and "x + 4 < of_int (8 * q + 7) + 1"
    by linarith+
  then show "of_int (8 * q) - 4 \<le> x" and "x < of_int (8 * q) + 4"
    by simp_all
qed

lemma max_multiple_closest:
  fixes x :: real
  defines "k \<equiv> max 8 (\<lfloor>x + 4\<rfloor> div 8 * 8)"
  assumes j: "0 < j" "8 dvd j"
  shows "\<bar>of_int k - x\<bar> \<le> \<bar>of_int j - x\<bar>"
proof -
  define q where "q = \<lfloor>x + 4\<rfloor> div 8"
  have lo: "of_int (8 * q) - 4 \<le> x" and hi: "x < of_int (8 * q) + 4"
    unfolding q_def by (rule nearest_multiple_bounds)+
  have k: "k = max 8 (8 * q)"
    by (simp add: k_def q_def mult.commute)
  from j have j8: "8 \<le> j" by presburger
  show ?thesis
  proof (cases "1 \<le> q")
    case True
    then have kq: "k = 8 * q" using k by simp
    from j have "j \<le> 8 * q - 8 \<or> j = 8 * q \<or> 8 * q + 8 \<le> j"
      by presburger
    then show ?thesis
    proof (elim disjE)
      assume "j \<le> 8 * q - 8"
      then have "of_int j \<le> (of_int (8 * q) :: real) - 8"
        by (metis of_int_le_iff of_int_diff of_int_numeral)
      with lo hi show ?thesis unfolding kq by linarith
    next
      assume "j = 8 * q"
      then show ?thesis unfolding kq by simp
    next
      assume "8 * q + 8 \<le> j"
      then have "(of_int (8 * q) :: real) + 8 \<le> of_int j"
        by (metis of_int_le_iff of_int_add of_int_numeral)
      with lo hi show ?thesis unfolding kq by linarith
    qed
  next
    case False
    then have "q \<le> 0" by simp
    then have k8: "k = 8" using k by simp
    from \<open>q \<le> 0\<close> have "(of_int (8 * q) :: real) \<le> 0"
      by (simp add: mult_le_0_iff)
    with hi have "x < 4" by linarith
    moreover from j8 have "(8 :: real) \<le> of_int j"
      by (metis of_int_le_iff of_int_numeral)
    ultimately show ?thesis unfolding k8 by simp
  qed
qed

lemma make_divisible_8:
  "make_divisible x 8 =
     (let k = max 8 (\<lfloor>x + 4\<rfloor> div 8 * 8) in if of_int k < 0.9 * x then k + 8 else k)"
  by (simp add: make_divisible_def)

lemma max_multiple_props: "0 < max 8 (\<lfloor>x + 4\<rfloor> div 8 * 8)" "8 dvd max (8::int) (\<lfloor>x + 4\<rfloor> div 8 * 8)"
  by (simp_all add: max_def)

lemma attention_not_earlier:
  assumes "m \<in> set attention_family"
  shows "m \<notin> set reorg_family"
  using assms by (auto simp: attention_family_def reorg_family_def)

lemma scaled_rule_c2:
  assumes "scaled_rule no gw chs f n m (PInt c # rest) reps = Inr (args', c2', n')"
  shows "c2' = (if c \<noteq> no then make_divisible (of_int c * gw) 8 else c)"
  using assms
  by (auto simp: scaled_rule_def scaled_pair_def ebind_Inr_iff split: if_splits)

lemma resolve_layer_scaled:
  assumes m: "m \<in> set family1 \<union> set family2 \<union> set family3 \<union> set family4 \<union> set attention_family"
    and r: "resolve_layer no gw chs c2 f n m (PInt c # rest) = Inr (args', c2', n')"
  shows "c2' = (if c \<noteq> no then make_divisible (of_int c * gw) 8 else c)"
proof -
  consider (1) "m \<in> set family1"
    | (2) "m \<notin> set family1" "m \<in> set family2"
    | (3) "m \<notin> set family1" "m \<notin> set family2" "m \<in> set family3"
    | (4) "m \<notin> set family1" "m \<notin> set family2" "m \<notin> set family3" "m \<in> set family4"
    | (5) "m \<notin> set family1" "m \<notin> set family2" "m \<notin> set family3" "m \<notin> set family4"
          "m \<in> set attention_family"
    using m by blast
  then show ?thesis
  proof cases
    case 1
    with r have "scaled_rule no gw chs f n m (PInt c # rest) repeat1 = Inr (args', c2', n')"
      by (simp add: resolve_layer_def)
    then show ?thesis by (rule scaled_rule_c2)
  next
    case 2
    with r obtain a b d where
      "scaled_rule no gw chs f n m (PInt c # rest) repeat2 = Inr (a, b, d)" and "c2' = b"
      by (auto simp: resolve_layer_def ebind_Inr_iff split: if_splits)
    then show ?thesis using scaled_rule_c2 by blast
  next
    case 3
    with r have "scaled_rule no gw chs f n m (PInt c # rest) repeat3 = Inr (args', c2', n')"
      by (simp add: resolve_layer_def)
    then show ?thesis by (rule scaled_rule_c2)
  next
    case 4
    with r have "scaled_rule no gw chs f n m (PInt c # rest) repeat4 = Inr (args', c2', n')"
      by (simp add: resolve_layer_def)
    then show ?thesis by (rule scaled_rule_c2)
  next
    case 5
    with r attention_not_earlier [OF 5(5)] show ?thesis
      by (auto simp: resolve_layer_def scaled_pair_def ebind_Inr_iff split: if_splits)
  qed
qed

text \<open>
  The branches that carry the \<open>c2 != no\<close> test (lines 432, 448, 463, 473 and 484).
  For a module of one of their families, with declared output channels \<open>c\<close> and
  width multiplier \<open>gw\<close>: if \<open>c\<close> equals \<open>no\<close> it is passed through unscaled; otherwise
  the resolved count is a positive multiple of 8, namely a positive multiple of 8
  closest to \<open>c * gw\<close>, or the next multiple up when that one is below 90% of
  \<open>c * gw\<close>.
\<close>

lemma gated_width_scaling:
  assumes "m \<in> set family1 \<union> set family2 \<union> set family3 \<union> set family4 \<union> set attention_family"
    and "resolve_layer no gw chs c2 f n m (PInt c # rest) = Inr (args', c2', n')"
  shows "(c = no \<longrightarrow> c2' = c) \<and>
         (c \<noteq> no \<longrightarrow>
            0 < c2' \<and> 8 dvd c2' \<and>
            (\<exists>k. 0 < k \<and> 8 dvd k \<and>
                 (\<forall>j. 0 < j \<and> 8 dvd j \<longrightarrow>
                      \<bar>of_int k - of_int c * gw\<bar> \<le> \<bar>of_int j - of_int c * gw\<bar>) \<and>
                 c2' = (if of_int k < 0.9 * (of_int c * gw) then k + 8 else k)))"
proof -
  let ?x = "of_int c * gw"
  let ?k = "max 8 (\<lfloor>?x + 4\<rfloor> div 8 * 8)"
  from resolve_layer_scaled [OF assms]
  have c2: "c2' = (if c \<noteq> no then make_divisible ?x 8 else c)" .
  have k: "0 < ?k" "8 dvd ?k"
    by (rule max_multiple_props)+
  have near: "\<forall>j. 0 < j \<and> 8 dvd j \<longrightarrow> \<bar>of_int ?k - ?x\<bar> \<le> \<bar>of_int j - ?x\<bar>"
    using max_multiple_closest by blast
  have md: "make_divisible ?x 8 = (if of_int ?k < 0.9 * ?x then ?k + 8 else ?k)"
    by (simp add: make_divisible_8 Let_def)
  have pos: "0 < make_divisible ?x 8" "8 dvd make_divisible ?x 8"
    using k unfolding md by auto
  show ?thesis
  proof (intro conjI impI)
    assume "c = no"
    with c2 show "c2' = c" by simp
  next
    assume "c \<noteq> no"
    with c2 pos show "0 < c2'" by simp
  next
    assume "c \<noteq> no"
    with c2 pos show "8 dvd c2'" by simp
  next
    assume "c \<noteq> no"
    with c2 md have "c2' = (if of_int ?k < 0.9 * ?x then ?k + 8 else ?k)"
      by simp
    with k near show "\<exists>k. 0 < k \<and> 8 dvd k \<and>
                 (\<forall>j. 0 < j \<and> 8 dvd j \<longrightarrow> \<bar>of_int k - ?x\<bar> \<le> \<bar>of_int j - ?x\<bar>) \<and>
                 c2' = (if of_int k < 0.9 * ?x then k + 8 else k)"
      by blast
  qed
qed

text \<open>
  \<open>c = 47\<close>, \<open>gw = 0.25\<close>: the raw value is 11.75, the nearest multiple 8 is below
  90% of it, the result is 16.
\<close>

lemma conv_small_run:
  "resolve_layer 255 0.25 [3] 3 (Single (-1)) 1 ''Conv'' [PInt 47, PInt 1] =
     Inr ([PInt 3, PInt 16, PInt 1], 16, 1)"
  by code_simp

lemma gated_width_scaling_run:
  "''Conv'' \<in> set family1 \<and>
   resolve_layer 255 0.25 [3] 3 (Single (-1)) 1 ''Conv'' [PInt 47, PInt 1] =
     Inr ([PInt 3, PInt 16, PInt 1], 16, 1) \<and>
   (\<exists>k. 0 < k \<and> 8 dvd k \<and>
        (16 :: int) = (if of_int k < 0.9 * (of_int 47 * (0.25 :: real)) then k + 8 else k))"
proof -
  have mem: "''Conv'' \<in> set family1"
    by (simp add: family1_def)
  then have u: "''Conv'' \<in> set family1 \<union> set family2 \<union> set family3 \<union> set family4 \<union>
      set attention_family"
    by simp
  from gated_width_scaling [OF u conv_small_run]
  have "\<exists>k. 0 < k \<and> 8 dvd k \<and>
          (\<forall>j. 0 < j \<and> 8 dvd j \<longrightarrow>
               \<bar>of_int k - of_int 47 * (0.25 :: real)\<bar> \<le> \<bar>of_int j - of_int 47 * 0.25\<bar>) \<and>
          (16 :: int) = (if of_int k < 0.9 * (of_int 47 * (0.25 :: real)) then k + 8 else k)"
    by simp
  then have "\<exists>k. 0 < k \<and> 8 dvd k \<and>
        (16 :: int) = (if of_int k < 0.9 * (of_int 47 * (0.25 :: real)) then k + 8 else k)"
    by blast
  with mem conv_small_run show ?thesis
    by blast
qed

text \<open>
  The same through the whole builder, where \<open>no = na * (nc + 5)\<close> is computed from the
  configuration. Each recorded layer carries the args its branch resolved; the
  first four gated branches put the output channels at \<open>args[1]\<close>.
\<close>

lemma parse_step_layers:
  assumes "parse_step no gd gw i (f, n, m, args) st = Inr st'"
  shows "\<exists>args' c2' n'.
           resolve_layer no gw (st_ch st) (st_c2 st) f (depth_gain gd n) m args = Inr (args', c2', n') \<and>
           st_layers st' = st_layers st @ [\<lparr>b_i = i, b_f = f, b_type = m, b_args = args', b_n = n'\<rparr>]"
  using assms by (auto simp: parse_step_def ebind_Inr_iff)

lemma parse_step_layers_length:
  assumes "parse_step no gd gw i spec st = Inr st'"
  shows "st_layers st' = st_layers st @ [last (st_layers st')]"
  using assms by (cases spec) (auto simp: parse_step_def ebind_Inr_iff)

lemma parse_loop_layers_prefix:
  assumes "parse_loop no gd gw i specs st = Inr st'"
  shows "take (length (st_layers st)) (st_layers st') = st_layers st"
  using assms
proof (induction specs arbitrary: i st)
  case Nil
  then show ?case by simp
next
  case (Cons spec specs)
  then obtain st1 where s: "parse_step no gd gw i spec st = Inr st1"
    and l: "parse_loop no gd gw (Suc i) specs st1 = Inr st'"
    by (auto simp: ebind_Inr_iff)
  from parse_step_layers_length [OF s] obtain b where b: "st_layers st1 = st_layers st @ [b]"
    by blast
  from Cons.IH [OF l] have "take (length (st_layers st1)) (st_layers st') = st_layers st1" .
  then have "take (length (st_layers st)) (take (length (st_layers st1)) (st_layers st')) =
      take (length (st_layers st)) (st_layers st1)"
    by simp
  with b show ?case by (simp add: min_def)
qed

lemma parse_loop_layer:
  assumes "parse_loop no gd gw i specs st = Inr st'"
    and "k < length specs" and "specs ! k = (f, n, m, args)"
  shows "\<exists>chs c2 args' c2' n'.
           resolve_layer no gw chs c2 f (depth_gain gd n) m args = Inr (args', c2', n') \<and>
           b_args (st_layers st' ! (length (st_layers st) + k)) = args'"
  using assms
proof (induction specs arbitrary: i st k)
  case Nil
  then show ?case by simp
next
  case (Cons spec specs)
  then obtain st1 where s: "parse_step no gd gw i spec st = Inr st1"
    and l: "parse_loop no gd gw (Suc i) specs st1 = Inr st'"
    by (auto simp: ebind_Inr_iff)
  show ?case
  proof (cases k)
    case 0
    with Cons.prems have spec: "spec = (f, n, m, args)" by simp
    from parse_step_layers [OF s [unfolded spec]] obtain args' c2' n' where
      r: "resolve_layer no gw (st_ch st) (st_c2 st) f (depth_gain gd n) m args = Inr (args', c2', n')"
      and a: "st_layers st1 = st_layers st @ [\<lparr>b_i = i, b_f = f, b_type = m, b_args = args', b_n = n'\<rparr>]"
      by blast
    from parse_loop_layers_prefix [OF l]
    have "take (length (st_layers st1)) (st_layers st') ! length (st_layers st) =
        st_layers st1 ! length (st_layers st)"
      by simp
    with a have "st_layers st' ! length (st_layers st) =
        \<lparr>b_i = i, b_f = f, b_type = m, b_args = args', b_n = n'\<rparr>"
      by simp
    with r 0 show ?thesis by auto
  next
    case (Suc j)
    with Cons.prems have "j < length specs" "specs ! j = (f, n, m, args)"
      by simp_all
    from Cons.IH [OF l this] obtain chs c2 args' c2' n' where
      r: "resolve_layer no gw chs c2 f (depth_gain gd n) m args = Inr (args', c2', n')"
      and a: "b_args (st_layers st' ! (length (st_layers st1) + j)) = args'"
      by blast
    from parse_step_layers_length [OF s] have "length (st_layers st1) = Suc (length (st_layers st))"
      by (metis length_append_singleton)
    with a Suc have "b_args (st_layers st' ! (length (st_layers st) + k)) = args'"
      by simp
    with r show ?thesis by blast
  qed
qed

lemma scaled_rule_args:
  assumes "scaled_rule no gw chs f n m args reps = Inr (args', c2', n')"
  shows "args' ! 1 = PInt c2'"
  using assms
  by (auto simp: scaled_rule_def ebind_Inr_iff split: if_splits)

lemma scale_arg6_keeps:
  assumes "scale_arg6 gw args = Inr args'"
  shows "args' ! 1 = args ! 1"
  using assms by (auto simp: scale_arg6_def split: if_splits pyval.splits)

lemma resolve_layer_args:
  assumes m: "m \<in> set family1 \<union> set family2 \<union> set family3 \<union> set family4"
    and r: "resolve_layer no gw chs c2 f n m args = Inr (args', c2', n')"
  shows "args' ! 1 = PInt c2'"
proof -
  consider (1) "m \<in> set family1"
    | (2) "m \<notin> set family1" "m \<in> set family2"
    | (3) "m \<notin> set family1" "m \<notin> set family2" "m \<in> set family3"
    | (4) "m \<notin> set family1" "m \<notin> set family2" "m \<notin> set family3" "m \<in> set family4"
    using m by blast
  then show ?thesis
  proof cases
    case 1
    with r have "scaled_rule no gw chs f n m args repeat1 = Inr (args', c2', n')"
      by (simp add: resolve_layer_def)
    then show ?thesis by (rule scaled_rule_args)
  next
    case 2
    with r obtain a b d where
      s: "scaled_rule no gw chs f n m args repeat2 = Inr (a, b, d)" and b: "c2' = b"
      and a: "args' = a \<or> scale_arg6 gw a = Inr args'"
      by (auto simp: resolve_layer_def ebind_Inr_iff split: if_splits)
    from scaled_rule_args [OF s] a b show ?thesis
      using scale_arg6_keeps by auto
  next
    case 3
    with r have "scaled_rule no gw chs f n m args repeat3 = Inr (args', c2', n')"
      by (simp add: resolve_layer_def)
    then show ?thesis by (rule scaled_rule_args)
  next
    case 4
    with r have "scaled_rule no gw chs f n m args repeat4 = Inr (args', c2', n')"
      by (simp add: resolve_layer_def)
    then show ?thesis by (rule scaled_rule_args)
  qed
qed

lemma gated_families_built:
  assumes p: "parse_model d chs = Inr (layers, sv)"
    and na: "num_anchors (anchors d) = Inr na"
    and k: "k < length (backbone d @ head d)"
    and s: "(backbone d @ head d) ! k = (f, n, m, PInt c # rest)"
    and m: "m \<in> set family1 \<union> set family2 \<union> set family3 \<union> set family4"
  shows "b_args (layers ! k) ! 1 =
           PInt (if c = na * (nc d + 5) then c
                 else make_divisible (of_int c * width_multiple d) 8)"
proof -
  from p na obtain c2 st where
    l: "parse_loop (na * (nc d + 5)) (depth_multiple d) (width_multiple d) 0 (backbone d @ head d)
          \<lparr>st_layers = [], st_save = [], st_c2 = c2, st_ch = chs\<rparr> = Inr st"
    and ls: "layers = st_layers st"
    by (auto simp: parse_model_def ebind_Inr_iff Let_def)
  from parse_loop_layer [OF l k s] obtain chs' c2' args' c2'' n' where
    r: "resolve_layer (na * (nc d + 5)) (width_multiple d) chs' c2' f
          (depth_gain (depth_multiple d) n) m (PInt c # rest) = Inr (args', c2'', n')"
    and a: "b_args (st_layers st ! k) = args'"
    by auto
  from m have m5: "m \<in> set family1 \<union> set family2 \<union> set family3 \<union> set family4 \<union>
      set attention_family"
    by simp
  from resolve_layer_args [OF m r] resolve_layer_scaled [OF m5 r] a ls
  show ?thesis by auto
qed

text \<open>
  The fifth gated branch (line 482) hands on \<open>[c1, *args[1:]]\<close>, so its output
  channels show only in the channel trace \<open>ch\<close>. Entry \<open>k\<close> of the trace the loop ends
  with is what layer \<open>k\<close> resolved, for all five gated families.
\<close>

lemma parse_step_ch:
  assumes "parse_step no gd gw i (f, n, m, args) st = Inr st'"
    and "i = 0 \<or> length (st_ch st) = i"
  shows "\<exists>args' c2' n'.
           resolve_layer no gw (st_ch st) (st_c2 st) f (depth_gain gd n) m args = Inr (args', c2', n') \<and>
           st_ch st' ! i = c2' \<and> length (st_ch st') = Suc i"
  using assms by (auto simp: parse_step_def ebind_Inr_iff)

lemma parse_step_ch_grows:
  assumes "parse_step no gd gw i spec st = Inr st'" and "0 < i"
  shows "take (length (st_ch st)) (st_ch st') = st_ch st"
  using assms by (cases spec) (auto simp: parse_step_def ebind_Inr_iff)

lemma parse_loop_ch_prefix:
  assumes "parse_loop no gd gw i specs st = Inr st'" and "0 < i"
  shows "take (length (st_ch st)) (st_ch st') = st_ch st"
  using assms
proof (induction specs arbitrary: i st)
  case Nil
  then show ?case by simp
next
  case (Cons spec specs)
  then obtain st1 where s: "parse_step no gd gw i spec st = Inr st1"
    and l: "parse_loop no gd gw (Suc i) specs st1 = Inr st'"
    by (auto simp: ebind_Inr_iff)
  from parse_step_ch_grows [OF s Cons.prems(2)]
  have g: "take (length (st_ch st)) (st_ch st1) = st_ch st" .
  from arg_cong [OF g, of length] have le: "length (st_ch st) \<le> length (st_ch st1)"
    by simp
  from Cons.IH [OF l] have "take (length (st_ch st1)) (st_ch st') = st_ch st1"
    by simp
  then have "take (length (st_ch st)) (take (length (st_ch st1)) (st_ch st')) =
      take (length (st_ch st)) (st_ch st1)"
    by simp
  with g le show ?case by (simp add: min_def)
qed

lemma parse_loop_ch:
  assumes "parse_loop no gd gw i specs st = Inr st'"
    and "i = 0 \<or> length (st_ch st) = i"
    and "k < length specs" and "specs ! k = (f, n, m, args)"
  shows "\<exists>chs c2 args' n'.
           resolve_layer no gw chs c2 f (depth_gain gd n) m args = Inr (args', st_ch st' ! (i + k), n')"
  using assms
proof (induction specs arbitrary: i st k)
  case Nil
  then show ?case by simp
next
  case (Cons spec specs)
  then obtain st1 where s: "parse_step no gd gw i spec st = Inr st1"
    and l: "parse_loop no gd gw (Suc i) specs st1 = Inr st'"
    by (auto simp: ebind_Inr_iff)
  obtain f0 n0 m0 args0 where spec: "spec = (f0, n0, m0, args0)"
    by (cases spec) auto
  from parse_step_ch [OF s [unfolded spec] Cons.prems(2)] obtain args' c2' n' where
    r: "resolve_layer no gw (st_ch st) (st_c2 st) f0 (depth_gain gd n0) m0 args0 = Inr (args', c2', n')"
    and a: "st_ch st1 ! i = c2'" and len: "length (st_ch st1) = Suc i"
    by blast
  show ?case
  proof (cases k)
    case 0
    with Cons.prems spec have e: "f0 = f" "n0 = n" "m0 = m" "args0 = args" by simp_all
    from parse_loop_ch_prefix [OF l] len
    have "take (Suc i) (st_ch st') ! i = st_ch st1 ! i"
      by simp
    with a have "st_ch st' ! i = c2'"
      by simp
    with r e 0 show ?thesis by auto
  next
    case (Suc j)
    with Cons.prems have "j < length specs" "specs ! j = (f, n, m, args)"
      by simp_all
    from Cons.IH [OF l _ this] len Suc show ?thesis
      by simp
  qed
qed

lemma gated_families_trace:
  assumes l: "parse_loop (na * (nc d + 5)) (depth_multiple d) (width_multiple d) 0
                (backbone d @ head d)
                \<lparr>st_layers = [], st_save = [], st_c2 = c0, st_ch = chs\<rparr> = Inr st"
    and k: "k < length (backbone d @ head d)"
    and s: "(backbone d @ head d) ! k = (f, n, m, PInt c # rest)"
    and m: "m \<in> set family1 \<union> set family2 \<union> set family3 \<union> set family4 \<union> set attention_family"
  shows "st_ch st ! k =
           (if c = na * (nc d + 5) then c
            else make_divisible (of_int c * width_multiple d) 8)"
proof -
  from parse_loop_ch [OF l _ k s] obtain chs' c2' args' n' where
    "resolve_layer (na * (nc d + 5)) (width_multiple d) chs' c2' f
       (depth_gain (depth_multiple d) n) m (PInt c # rest) = Inr (args', st_ch st ! k, n')"
    by auto
  from resolve_layer_scaled [OF m this] show ?thesis by auto
qed

text \<open>
  The \<open>MobileOne\<close> branch (lines 530 to 533) scales \<open>args[0]\<close> whatever its value:
  there is no \<open>c2 != no\<close> test before \<open>make_divisible\<close>.
\<close>

lemma mobileone_unconditional:
  assumes "resolve_layer no gw chs c2 f n ''MobileOne'' (PInt c # rest) = Inr (args', c2', n')"
  shows "c2' = make_divisible (of_int c * gw) 8"
  using assms
  apply (simp add: resolve_layer_def family1_def family2_def family3_def family4_def reorg_family_def
   attention_family_def replknet_family_def idetect_family_def detectx_family_def)
  apply (auto simp: ebind_Inr_iff Let_def)
  done

text \<open>
  C2 does not hold of the \<open>MobileOne\<close> branch. With three anchors and 80 classes,
  \<open>no = 3 * (80 + 5) = 255\<close>. The \<open>Conv\<close> that declares 255 output channels is built
  with 255, as the claim says; the \<open>MobileOne\<close> that declares 255 is built with
  \<open>make_divisible(255 * 0.5, 8) = 128\<close>, where the claim says 255.
\<close>

theorem mobileone_scales_output:
  "parse_model cfg_output [3] =
     Inr ([\<lparr>b_i = 0, b_f = Single (- 1), b_type = ''Conv'',
              b_args = [PInt 3, PInt 255, PInt 1], b_n = 1\<rparr>,
           \<lparr>b_i = 1, b_f = Single (- 1), b_type = ''MobileOne'',
              b_args = [PInt 255, PInt 128, PInt 1, PInt 3], b_n = 1\<rparr>],
          [])"
  by code_simp

subsection \<open>C6: the three passes and their inverse transform\<close>

lemma emap_Inr_map:
  assumes "\<And>x. x \<in> set xs \<Longrightarrow> g x = Inr (h x)"
  shows "emap g xs = Inr (map h xs)"
  using assms by (induction xs) simp_all

lemma descale_row_descaled:
  assumes "4 \<le> length row"
  shows "descale_row inplace flips scale img_size row = Inr (descaled flips scale img_size row)"
proof -
  from assms obtain a b c d rest where row: "row = a # b # c # d # rest"
    by (cases row; cases "tl row"; cases "tl (tl row)"; cases "tl (tl (tl row))") auto
  show ?thesis
    by (auto simp: row descale_row_def descaled_def Let_def)
qed

lemma descale_pred_descaled:
  assumes "\<forall>b\<in>set p. \<forall>row\<in>set b. 4 \<le> length row"
  shows "descale_pred inplace p flips scale img_size =
           Inr (map (map (descaled flips scale img_size)) p)"
  unfolding descale_pred_def
  using assms by (intro emap_Inr_map) (simp add: descale_row_descaled)

text \<open>
  C6: an augmented inference that returns has run the network exactly on the image
  at scale 1 unflipped, at scale 0.83 flipped left-right and at scale 0.67
  unflipped; what is clipped and concatenated are the three results with the box
  coordinates of every prediction divided by the pass's scale and, for the flipped
  pass, \<open>x\<close> replaced by the image width minus \<open>x\<close>. The inverse transform itself, for
  any flip code and scale, also reflects \<open>y\<close> about the image height under an
  up-down flip. (Predictions have at least the four box coordinates.)
\<close>

theorem augmented_inference:
  assumes rows: "\<And>im p. infer im = Inr p \<Longrightarrow> \<forall>b\<in>set p. \<forall>row\<in>set b. 4 \<le> length row"
    and run: "forward_augment inplace nl flip scale_img infer img_size x = Inr out"
  shows "(\<exists>p0 p1 p2 yc.
            infer (scale_img x 1) = Inr p0 \<and>
            infer (scale_img (flip x 3) 0.83) = Inr p1 \<and>
            infer (scale_img x 0.67) = Inr p2 \<and>
            clip_augmented nl
              [map (map (descaled None 1 img_size)) p0,
               map (map (descaled (Some 3) 0.83 img_size)) p1,
               map (map (descaled None 0.67 img_size)) p2] = Inr yc \<and>
            cat1 yc = Inr out) \<and>
         (\<forall>p flips scale.
            (\<forall>b\<in>set p. \<forall>row\<in>set b. 4 \<le> length row) \<longrightarrow>
            descale_pred inplace p flips scale img_size =
              Inr (map (map (descaled flips scale img_size)) p))"
proof (intro conjI allI impI)
  from run obtain y yc where
    loop: "augment_loop inplace flip scale_img infer img_size x
             [(1, None), (0.83, Some 3), (0.67, None)] [] = Inr y" and
    clip: "clip_augmented nl y = Inr yc" and cat: "cat1 yc = Inr out"
    by (auto simp: forward_augment_def ebind_Inr_iff)
  from loop obtain p0 d0 p1 d1 p2 d2 where
    i0: "infer (scale_img x 1) = Inr p0" and
    e0: "descale_pred inplace p0 None 1 img_size = Inr d0" and
    i1: "infer (scale_img (flip x 3) 0.83) = Inr p1" and
    e1: "descale_pred inplace p1 (Some 3) 0.83 img_size = Inr d1" and
    i2: "infer (scale_img x 0.67) = Inr p2" and
    e2: "descale_pred inplace p2 None 0.67 img_size = Inr d2" and
    y: "y = [d0, d1, d2]"
    by (auto simp: ebind_Inr_iff Let_def)
  from e0 e1 e2 descale_pred_descaled [OF rows [OF i0]] descale_pred_descaled [OF rows [OF i1]]
    descale_pred_descaled [OF rows [OF i2]]
  have "d0 = map (map (descaled None 1 img_size)) p0"
    "d1 = map (map (descaled (Some 3) 0.83 img_size)) p1"
    "d2 = map (map (descaled None 0.67 img_size)) p2"
    by simp_all
  with i0 i1 i2 clip cat y
  show "\<exists>p0 p1 p2 yc.
            infer (scale_img x 1) = Inr p0 \<and>
            infer (scale_img (flip x 3) 0.83) = Inr p1 \<and>
            infer (scale_img x 0.67) = Inr p2 \<and>
            clip_augmented nl
              [map (map (descaled None 1 img_size)) p0,
               map (map (descaled (Some 3) 0.83 img_size)) p1,
               map (map (descaled None 0.67 img_size)) p2] = Inr yc \<and>
            cat1 yc = Inr out"
    by blast
next
  fix p :: tensor3 and flips scale
  assume "\<forall>b\<in>set p. \<forall>row\<in>set b. 4 \<le> length row"
  then show "descale_pred inplace p flips scale img_size =
              Inr (map (map (descaled flips scale img_size)) p)"
    by (rule descale_pred_descaled)
qed

text \<open>
  A run on the stand-in network with a 480 by 640 image, and an up-down de-flip.
\<close>

lemma one_box_run:
  "forward_augment True 3 (\<lambda>im k. im) (\<lambda>im s. im) one_box (480, 640) 0 =
     Inr [[[540, 200, 10, 20, 1, 0], [8300 / 67, 16600 / 67, 830 / 67, 1660 / 67, 1, 0]]]"
  by (simp add: forward_augment_def one_box_def descale_pred_def descale_row_def
      clip_augmented_def slice_to_neg_def shape1_def cat1_def upt_rec)

theorem augmented_inference_witness:
  "forward_augment True 3 (\<lambda>im k. im) (\<lambda>im s. im) one_box (480, 640) 0 =
     Inr [[[540, 200, 10, 20, 1, 0], [8300 / 67, 16600 / 67, 830 / 67, 1660 / 67, 1, 0]]] \<and>
   descale_pred True [[[83, 166, 8.3, 16.6, 1, 0]]] (Some 2) 0.83 (480, 640) =
     Inr [[[100, 280, 10, 20, 1, 0]]]"
proof -
  have rows: "\<And>im p. one_box im = Inr p \<Longrightarrow> \<forall>b\<in>set p. \<forall>row\<in>set b. 4 \<le> length row"
    by (auto simp: one_box_def)
  note t = augmented_inference [of one_box, OF rows one_box_run, THEN conjunct2, rule_format]
  have "descale_pred True [[[83, 166, 8.3, 16.6, 1, 0]]] (Some 2) 0.83 (480, 640) =
     Inr (map (map (descaled (Some 2) 0.83 (480, 640))) [[[83, 166, 8.3, 16.6, 1, 0]]])"
    by (rule t) auto
  then have "descale_pred True [[[83, 166, 8.3, 16.6, 1, 0]]] (Some 2) 0.83 (480, 640) =
     Inr [[[100, 280, 10, 20, 1, 0]]]"
    by (simp add: descaled_def)
  with one_box_run show ?thesis
    by blast
qed

subsection \<open>C9: bias initialisation\<close>

lemma class_offsets_nth:
  assumes "class_offsets ncls cf w = Inr cls"
  shows "length cls = w \<and>
         (\<forall>c<w. cls ! c =
            (case cf of
               None \<Rightarrow> ln (0.6 / (of_int ncls - 0.999999))
             | Some fs \<Rightarrow> ln (fs ! (if length fs = w then c else 0) / sum_list fs)))"
  using assms
  by (auto simp: class_offsets_def py_log_def ebind_Inr_iff split: option.splits if_splits)

lemma init_bias_entries:
  assumes run: "init_bias na ncls cf s bias = Inr bias'"
    and a: "a < na" and c: "c < length bias div na"
  shows "length bias' = length bias \<and>
         bias' ! (a * (length bias div na) + c) =
           bias ! (a * (length bias div na) + c) +
             (if c = 4 then ln (8 / (640 / s) ^ 2)
              else if 5 \<le> c then
                (case cf of
                   None \<Rightarrow> ln (0.6 / (of_int ncls - 0.999999))
                 | Some fs \<Rightarrow>
                     ln (fs ! (if length fs = length bias div na - 5 then c - 5 else 0)
                           / sum_list fs))
              else 0)"
proof -
  define w where "w = length bias div na"
  from run obtain b obj cls where
    v: "view_rows na bias = Inr b" and w4: "4 < w" and
    obj: "py_log (8 / (640 / s) ^ 2) = Inr obj" and
    cl: "class_offsets ncls cf (w - 5) = Inr cls" and
    out: "bias' = concat (map (\<lambda>r. take 5 r @ map2 (+) (drop 5 r) cls)
                           (map (\<lambda>r. r[4 := r ! 4 + obj]) b))"
    by (auto simp: init_bias_def ebind_Inr_iff w_def Let_def split: if_splits)
  from v have na: "na \<noteq> 0" and dv: "length bias mod na = 0" and
    b: "b = map (\<lambda>a. take w (drop (a * w) bias)) [0..<na]"
    by (auto simp: view_rows_def w_def split: if_splits)
  from dv have len: "length bias = na * w"
    using mult_div_mod_eq [of na "length bias"] by (simp add: w_def)
  from obj have objv: "obj = ln (8 / (640 / s) ^ 2)"
    by (auto simp: py_log_def split: if_splits)
  from class_offsets_nth [OF cl] have lcls: "length cls = w - 5" and
    clsv: "\<forall>c<w - 5. cls ! c =
            (case cf of
               None \<Rightarrow> ln (0.6 / (of_int ncls - 0.999999))
             | Some fs \<Rightarrow> ln (fs ! (if length fs = w - 5 then c else 0) / sum_list fs))"
    by simp_all
  have aw: "a * w + w \<le> na * w"
  proof -
    from a have "Suc a \<le> na" by simp
    then have "Suc a * w \<le> na * w" by (rule mult_le_mono1)
    then show ?thesis by simp
  qed
  have rowlen: "\<And>a. a < na \<Longrightarrow> length (take w (drop (a * w) bias)) = w"
  proof -
    fix a' assume "a' < na"
    then have "Suc a' \<le> na" by simp
    then have "Suc a' * w \<le> na * w" by (rule mult_le_mono1)
    then show "length (take w (drop (a' * w) bias)) = w"
      using len by simp
  qed
  let ?rows = "map (\<lambda>r. take 5 r @ map2 (+) (drop 5 r) cls) (map (\<lambda>r. r[4 := r ! 4 + obj]) b)"
  have rows_len: "\<forall>r\<in>set ?rows. length r = w"
    using rowlen w4 lcls by (auto simp: b)
  have nrows: "length ?rows = na"
    by (simp add: b)
  from c have cw: "c < w" by (simp add: w_def)
  have l: "length bias' = length bias"
    using length_concat_uniform [OF rows_len] nrows len out by simp
  let ?r = "take w (drop (a * w) bias)"
  have r: "length ?r = w" using rowlen [OF a] .
  have "a * w \<le> length bias"
    using aw len by linarith
  then have rc: "?r ! c = bias ! (a * w + c)"
    using cw by simp
  have row: "?rows ! a = take 5 (?r[4 := ?r ! 4 + obj]) @ map2 (+) (drop 5 (?r[4 := ?r ! 4 + obj])) cls"
    using a by (simp add: b)
  have "bias' ! (a * w + c) = ?rows ! a ! c"
    unfolding out using nth_concat_uniform [OF rows_len _ cw, of a] a nrows by simp
  also have "\<dots> = ?r ! c + (if c = 4 then obj else if 5 \<le> c then cls ! (c - 5) else 0)"
  proof (cases "c < 5")
    case True
    with r w4 show ?thesis
      unfolding row by (auto simp: nth_append nth_list_update)
  next
    case False
    with r w4 cw lcls show ?thesis
      unfolding row by (auto simp: nth_append nth_list_update)
  qed
  also have "\<dots> = bias ! (a * w + c) +
             (if c = 4 then ln (8 / (640 / s) ^ 2)
              else if 5 \<le> c then
                (case cf of
                   None \<Rightarrow> ln (0.6 / (of_int ncls - 0.999999))
                 | Some fs \<Rightarrow> ln (fs ! (if length fs = w - 5 then c - 5 else 0) / sum_list fs))
              else 0)"
  proof -
    have "5 \<le> c \<Longrightarrow> c - 5 < w - 5" using cw by simp
    with clsv show ?thesis
      by (simp add: rc objv)
  qed
  finally show ?thesis
    using l unfolding w_def by blast
qed


lemma init_bias_length:
  assumes run: "init_bias na ncls cf s bias = Inr bias'"
  shows "length bias' = length bias"
proof -
  from run have "0 < na" "0 < length bias div na"
    by (auto simp: init_bias_def ebind_Inr_iff view_rows_def split: if_splits)
  from init_bias_entries [OF run this] show ?thesis
    by simp
qed

text \<open>
  C9: when the bias initialisation returns, then for each output convolution that
  has a stride, with its bias read as \<open>na\<close> rows (one per anchor): entry 4 of every
  row has grown by \<open>log(8 / (640 / stride)^2)\<close>; every entry from 5 on has grown by
  \<open>log(0.6 / (nc - 0.999999))\<close> when no class frequencies are given, and by
  \<open>log(freq / sum of the freqs)\<close> of its class when they are; entries 0 to 3 are
  unchanged, and so is the bias of a convolution without a stride.
\<close>

theorem bias_initialisation:
  assumes "initialize_biases na ncls cf strides biases = Inr biases'"
  shows "length biases' = length biases \<and>
         (\<forall>i<length biases.
            if i < length strides then
              length (biases' ! i) = length (biases ! i) \<and>
              (\<forall>a<na. \<forall>c<length (biases ! i) div na.
                 biases' ! i ! (a * (length (biases ! i) div na) + c) =
                   biases ! i ! (a * (length (biases ! i) div na) + c) +
                     (if c = 4 then ln (8 / (640 / strides ! i) ^ 2)
                      else if 5 \<le> c then
                        (case cf of
                           None \<Rightarrow> ln (0.6 / (of_int ncls - 0.999999))
                         | Some fs \<Rightarrow>
                             ln (fs ! (if length fs = length (biases ! i) div na - 5
                                       then c - 5 else 0) / sum_list fs))
                      else 0))
            else biases' ! i = biases ! i)"
proof -
  from assms obtain bs where
    e: "emap (\<lambda>(bias, s). init_bias na ncls cf s bias) (zip biases strides) = Inr bs" and
    out: "biases' = bs @ drop (length bs) biases"
    by (auto simp: initialize_biases_def ebind_Inr_iff)
  from emap_Inr_nth [OF e] have
    lbs: "length bs = min (length biases) (length strides)" and
    each: "\<forall>i<length (zip biases strides).
             init_bias na ncls cf (strides ! i) (biases ! i) = Inr (bs ! i)"
    by auto
  have len: "length biases' = length biases"
    using lbs out by simp
  have "\<forall>i<length biases.
            if i < length strides then
              length (biases' ! i) = length (biases ! i) \<and>
              (\<forall>a<na. \<forall>c<length (biases ! i) div na.
                 biases' ! i ! (a * (length (biases ! i) div na) + c) =
                   biases ! i ! (a * (length (biases ! i) div na) + c) +
                     (if c = 4 then ln (8 / (640 / strides ! i) ^ 2)
                      else if 5 \<le> c then
                        (case cf of
                           None \<Rightarrow> ln (0.6 / (of_int ncls - 0.999999))
                         | Some fs \<Rightarrow>
                             ln (fs ! (if length fs = length (biases ! i) div na - 5
                                       then c - 5 else 0) / sum_list fs))
                      else 0))
            else biases' ! i = biases ! i"
  proof (intro allI impI)
    fix i assume i: "i < length biases"
    show "if i < length strides then
              length (biases' ! i) = length (biases ! i) \<and>
              (\<forall>a<na. \<forall>c<length (biases ! i) div na.
                 biases' ! i ! (a * (length (biases ! i) div na) + c) =
                   biases ! i ! (a * (length (biases ! i) div na) + c) +
                     (if c = 4 then ln (8 / (640 / strides ! i) ^ 2)
                      else if 5 \<le> c then
                        (case cf of
                           None \<Rightarrow> ln (0.6 / (of_int ncls - 0.999999))
                         | Some fs \<Rightarrow>
                             ln (fs ! (if length fs = length (biases ! i) div na - 5
                                       then c - 5 else 0) / sum_list fs))
                      else 0))
            else biases' ! i = biases ! i"
    proof (cases "i < length strides")
      case True
      with i lbs have ib: "i < length bs" by simp
      then have bi: "biases' ! i = bs ! i"
        by (simp add: out nth_append)
      from each i True have run: "init_bias na ncls cf (strides ! i) (biases ! i) = Inr (bs ! i)"
        by simp
      from init_bias_entries [OF run] init_bias_length [OF run] True show ?thesis
        unfolding bi by simp
    next
      case False
      with i lbs have "length bs \<le> i" "length bs \<le> length biases" by simp_all
      then have "biases' ! i = biases ! i"
        by (simp add: out nth_append)
      with False show ?thesis by simp
    qed
  qed
  with len show ?thesis by blast
qed

text \<open>
  One anchor, two classes with frequencies 1 and 3, stride 640.
\<close>

lemma bias_run:
  "initialize_biases 1 2 (Some [1, 3]) [640] [[0, 0, 0, 0, 0, 0, 0], [1, 2]] =
     Inr [[0, 0, 0, 0, ln 8, ln (1 / 4), ln (3 / 4)], [1, 2]]"
  by (simp add: initialize_biases_def init_bias_def view_rows_def py_log_def class_offsets_def)

theorem bias_initialisation_witness:
  "initialize_biases 1 2 (Some [1, 3]) [640] [[0, 0, 0, 0, 0, 0, 0], [1, 2]] =
     Inr [[0, 0, 0, 0, ln 8, ln (1 / 4), ln (3 / 4)], [1, 2]] \<and>
   [0, 0, 0, 0, ln 8, ln (1 / 4), ln (3 / 4) :: real] ! 4 = 0 + ln (8 / (640 / 640) ^ 2) \<and>
   [0, 0, 0, 0, ln 8, ln (1 / 4), ln (3 / 4) :: real] ! 6 = 0 + ln (3 / (1 + 3)) \<and>
   [0, 0, 0, 0, ln 8, ln (1 / 4), ln (3 / 4) :: real] ! 3 = (0 :: real)"
proof -
  note t = bias_initialisation [OF bias_run, THEN conjunct2, rule_format, of 0, simplified,
    rule_format]
  have c4: "[0, 0, 0, 0, ln 8, ln (1 / 4), ln (3 / 4) :: real] ! 4 = 0 + ln (8 / (640 / 640) ^ 2)"
    using t [of 4] by simp
  have c6: "[0, 0, 0, 0, ln 8, ln (1 / 4), ln (3 / 4) :: real] ! 6 = 0 + ln (3 / (1 + 3))"
    using t [of 6] by simp
  have c3: "[0, 0, 0, 0, ln 8, ln (1 / 4), ln (3 / 4) :: real] ! 3 = (0 :: real)"
    using t [of 3] by simp
  from bias_run c4 c6 c3 show ?thesis
    by blast
qed

subsection \<open>The detection head: decoding, the store and the cache\<close>

lemma sigmoid_0: "sigmoid 0 = 1 / 2"
  by (simp add: sigmoid_def)

lemma decode_rows_inplace:
  assumes "4 \<le> length row"
  shows "wh_row (xy_row (map sigmoid row) gr s) ar = decoded_row s row gr ar"
proof -
  from assms obtain a b c d rest where row: "row = a # b # c # d # rest"
    by (cases row; cases "tl row"; cases "tl (tl row)"; cases "tl (tl (tl row))") auto
  show ?thesis
    by (simp add: row wh_row_def xy_row_def decoded_row_def)
qed

lemma decode_rows_cat:
  assumes "4 \<le> length row"
  shows "cat_row s (map sigmoid row) gr ar = decoded_row s row gr ar"
proof -
  from assms obtain a b c d rest where row: "row = a # b # c # d # rest"
    by (cases row; cases "tl row"; cases "tl (tl row)"; cases "tl (tl (tl row))") auto
  show ?thesis
    by (simp add: row cat_row_def decoded_row_def drop_map)
qed

lemma rows_ge4_nth:
  assumes "rows_ge4 y" "yb \<in> set y" "a < length yb" "j < length (yb ! a)" "k < length (yb ! a ! j)"
  shows "4 \<le> length (yb ! a ! j ! k)"
  using assms unfolding rows_ge4_def by (meson nth_mem)

lemma inplace_decode:
  assumes "rows_ge4 raw"
  shows "over_cells wh_row (over_cells (\<lambda>row gr. xy_row row gr s) (map5 sigmoid raw) g) ag =
           decode_as_specified s raw g ag"
  unfolding over_cells_def map5_def decode_as_specified_def
  using rows_ge4_nth [OF assms]
  by (simp add: decode_rows_inplace cong: map_cong)

lemma cat_decode:
  assumes "rows_ge4 raw"
  shows "cat_cells s (map5 sigmoid raw) g ag = decode_as_specified s raw g ag"
  unfolding cat_cells_def map5_def decode_as_specified_def
  using rows_ge4_nth [OF assms]
  by (simp add: decode_rows_cat cong: map_cong)

lemma view_permute_rows:
  assumes "4 \<le> no"
  shows "rows_ge4 (view_permute na no t)"
  using assms by (auto simp: rows_ge4_def view_permute_def split: prod.splits)


lemma refresh_grid_Inr:
  assumes "refresh_grid d i ny nx = Inr d1"
  shows "i < length (d_grid d) \<and>
         d1 = d\<lparr>d_grid := d_grid d1, d_anchor_grid := d_anchor_grid d1\<rparr> \<and>
         length (d_grid d1) = length (d_grid d) \<and>
         length (d_anchor_grid d1) = length (d_anchor_grid d) \<and>
         (\<forall>p. p \<noteq> i \<longrightarrow> d_grid d1 ! p = d_grid d ! p \<and>
                        d_anchor_grid d1 ! p = d_anchor_grid d ! p) \<and>
         (if d_onnx_dynamic d \<or> slot_shape24 (d_grid d ! i) \<noteq> [ny, nx]
          then \<exists>g ag. make_grid d nx ny i = Inr (g, ag) \<and> i < length (d_anchor_grid d) \<and>
                 d_grid d1 ! i = T5 g \<and> d_anchor_grid d1 ! i = T5 ag
          else d1 = d)"
  using assms
  by (auto simp: refresh_grid_def rebuild_grid_def ebind_Inr_iff nth_err_def split: if_splits)

lemma refresh_keeps:
  assumes "refresh_grid d i ny nx = Inr d1"
  shows "d_stride d1 = d_stride d" "d_inplace d1 = d_inplace d" "d_training d1 = d_training d"
    "d_no d1 = d_no d" "d_na d1 = d_na d" "d_nl d1 = d_nl d" "d_m d1 = d_m d"
    "d_anchors d1 = d_anchors d" "d_onnx_dynamic d1 = d_onnx_dynamic d"
  using assms
  by (auto simp: refresh_grid_def rebuild_grid_def ebind_Inr_iff split: if_splits)

lemma decode_store_Inr:
  assumes run: "decode_store d i h r = Inr (h', zr)" and r: "r < length h"
    and rows: "rows_ge4 (h ! r)"
  shows "i < length (d_stride d) \<and>
         h' = h @ (if d_inplace d then [] else [map5 sigmoid (h ! r)]) @
                [decode_as_specified (d_stride d ! i) (h ! r)
                   (the_slot (d_grid d ! i)) (the_slot (d_anchor_grid d ! i))] \<and>
         zr = length h' - 1"
  using run
  by (auto simp: decode_store_def alloc_def nth_err_def ebind_Inr_iff Let_def nth_append
      inplace_decode [OF rows] cat_decode [OF rows] split: if_splits)

lemma conv_out_Inr:
  assumes "conv_out d x i = Inr c"
  shows "i < length (d_m d) \<and> i < length x \<and> (\<exists>t. x ! i = Input t \<and> (d_m d ! i) t = Inr c)"
  using assms
  by (auto simp: conv_out_def nth_err_def ebind_Inr_iff split: if_splits xval.splits)

lemma raw_scale_Inr:
  assumes "raw_scale d c = Inr raw"
  shows "raw = view_permute (d_na d) (d_no d) c \<and> fst (snd (shape4 c)) = d_na d * d_no d"
  using assms by (auto simp: raw_scale_def split: prod.splits if_splits)

lemma detect_scale_train:
  assumes "detect_scale i st = Inr st'" and "d_training (s_det st)"
  shows "\<exists>c. conv_out (s_det st) (s_x st) i = Inr c \<and>
           fst (snd (shape4 c)) = d_na (s_det st) * d_no (s_det st) \<and>
           st' = st\<lparr>s_heap := s_heap st @ [view_permute (d_na (s_det st)) (d_no (s_det st)) c],
                     s_x := (s_x st)[i := Ref (length (s_heap st))]\<rparr>"
  using assms
  by (auto simp: detect_scale_def ebind_Inr_iff alloc_def Let_def dest!: raw_scale_Inr)

lemma detect_scale_infer:
  assumes run: "detect_scale i st = Inr st'" and inf: "\<not> d_training (s_det st)"
    and no: "4 \<le> d_no (s_det st)"
  shows "\<exists>c d1.
           conv_out (s_det st) (s_x st) i = Inr c \<and>
           fst (snd (shape4 c)) = d_na (s_det st) * d_no (s_det st) \<and>
           refresh_for (s_det st) i c = Inr d1 \<and> i < length (d_stride (s_det st)) \<and>
           s_det st' = d1 \<and>
           s_x st' = (s_x st)[i := Ref (length (s_heap st))] \<and>
           s_z st' = s_z st @ [length (s_heap st') - 1] \<and>
           s_heap st' =
             s_heap st @ [view_permute (d_na (s_det st)) (d_no (s_det st)) c] @
               (if d_inplace (s_det st) then []
                else [map5 sigmoid (view_permute (d_na (s_det st)) (d_no (s_det st)) c)]) @
               [decode_as_specified (d_stride (s_det st) ! i)
                  (view_permute (d_na (s_det st)) (d_no (s_det st)) c)
                  (the_slot (d_grid d1 ! i)) (the_slot (d_anchor_grid d1 ! i))]"
proof -
  let ?d = "s_det st"
  let ?h = "s_heap st"
  from run inf obtain c raw d1 h' zr where
    c: "conv_out ?d (s_x st) i = Inr c" and raw: "raw_scale ?d c = Inr raw" and
    rf: "refresh_for ?d i c = Inr d1" and
    dec: "decode_store d1 i (?h @ [raw]) (length ?h) = Inr (h', zr)" and
    st': "st' = \<lparr>s_det = d1, s_heap = h', s_x = (s_x st)[i := Ref (length ?h)],
                 s_z = s_z st @ [zr]\<rparr>"
    by (auto simp: detect_scale_def ebind_Inr_iff alloc_def Let_def)
  from raw_scale_Inr [OF raw] have rw: "raw = view_permute (d_na ?d) (d_no ?d) c"
    and ch: "fst (snd (shape4 c)) = d_na ?d * d_no ?d"
    by simp_all
  from rf have keep: "d_stride d1 = d_stride ?d" "d_inplace d1 = d_inplace ?d"
    by (auto simp: refresh_for_def split: prod.splits dest: refresh_keeps)
  have rows: "rows_ge4 ((?h @ [raw]) ! length ?h)"
    using no by (simp add: rw view_permute_rows)
  from decode_store_Inr [OF dec _ rows] keep have
    "i < length (d_stride ?d)" and
    "h' = ?h @ [raw] @ (if d_inplace ?d then [] else [map5 sigmoid raw]) @
            [decode_as_specified (d_stride ?d ! i) raw
               (the_slot (d_grid d1 ! i)) (the_slot (d_anchor_grid d1 ! i))]" and
    "zr = length h' - 1"
    by simp_all
  with c ch rf st' rw show ?thesis
    by simp
qed


lemma same_static_refl: "same_static d d"
  by (simp add: same_static_def)

lemma same_static_trans: "same_static a b \<Longrightarrow> same_static b c \<Longrightarrow> same_static a c"
  by (simp add: same_static_def)

lemma refresh_grid_static:
  assumes "refresh_grid d i ny nx = Inr d1"
  shows "same_static d d1"
  using assms
  by (auto simp: refresh_grid_def rebuild_grid_def same_static_def ebind_Inr_iff split: if_splits)

lemma refresh_for_static:
  assumes "refresh_for d i c = Inr d1"
  shows "same_static d d1"
  using assms by (auto simp: refresh_for_def split: prod.splits dest: refresh_grid_static)

lemma refresh_grid_others:
  assumes "refresh_grid d i ny nx = Inr d1" and "p \<noteq> i"
  shows "d_grid d1 ! p = d_grid d ! p" "d_anchor_grid d1 ! p = d_anchor_grid d ! p"
  using assms
  by (auto simp: refresh_grid_def rebuild_grid_def ebind_Inr_iff split: if_splits)

lemma refresh_for_others:
  assumes "refresh_for d i c = Inr d1" and "p \<noteq> i"
  shows "d_grid d1 ! p = d_grid d ! p" "d_anchor_grid d1 ! p = d_anchor_grid d ! p"
  using assms by (auto simp: refresh_for_def split: prod.splits dest: refresh_grid_others)

lemma conv_out_static:
  assumes "d_m d1 = d_m d2" "length x1 = length x2" "x1 ! i = x2 ! i"
  shows "conv_out d1 x1 i = conv_out d2 x2 i"
  using assms by (simp add: conv_out_def nth_err_def)

lemma decode_store_prefix:
  assumes "decode_store d i h r = Inr (h', zr)"
  shows "length h < length h' \<and> (\<forall>p<length h. h' ! p = h ! p) \<and> zr < length h'"
  using assms
  by (auto simp: decode_store_def alloc_def nth_err_def ebind_Inr_iff Let_def nth_append
      split: if_splits)

lemma detect_scale_frame:
  assumes run: "detect_scale i st = Inr st'"
  shows "\<exists>c. conv_out (s_det st) (s_x st) i = Inr c \<and>
           fst (snd (shape4 c)) = d_na (s_det st) * d_no (s_det st) \<and>
           s_x st' = (s_x st)[i := Ref (length (s_heap st))] \<and>
           length (s_heap st) < length (s_heap st') \<and>
           s_heap st' ! length (s_heap st) = view_permute (d_na (s_det st)) (d_no (s_det st)) c \<and>
           (\<forall>r<length (s_heap st). s_heap st' ! r = s_heap st ! r) \<and>
           same_static (s_det st) (s_det st') \<and>
           (\<forall>p. p \<noteq> i \<longrightarrow> d_grid (s_det st') ! p = d_grid (s_det st) ! p \<and>
                          d_anchor_grid (s_det st') ! p = d_anchor_grid (s_det st) ! p)"
proof (cases "d_training (s_det st)")
  case True
  from detect_scale_train [OF run True] show ?thesis
    by (auto simp: nth_append same_static_refl)
next
  case False
  let ?d = "s_det st"
  let ?h = "s_heap st"
  from run False obtain c raw d1 h' zr where
    c: "conv_out ?d (s_x st) i = Inr c" and raw: "raw_scale ?d c = Inr raw" and
    rf: "refresh_for ?d i c = Inr d1" and
    dec: "decode_store d1 i (?h @ [raw]) (length ?h) = Inr (h', zr)" and
    st': "st' = \<lparr>s_det = d1, s_heap = h', s_x = (s_x st)[i := Ref (length ?h)],
                 s_z = s_z st @ [zr]\<rparr>"
    by (auto simp: detect_scale_def ebind_Inr_iff alloc_def Let_def)
  from decode_store_prefix [OF dec] have
    l: "length ?h < length h'" and pre: "\<forall>p<Suc (length ?h). h' ! p = (?h @ [raw]) ! p"
    by simp_all
  from pre have "h' ! length ?h = raw"
    by (metis lessI nth_append_length)
  moreover from pre have "\<forall>r<length ?h. h' ! r = ?h ! r"
    by (simp add: nth_append)
  ultimately show ?thesis
    using c raw_scale_Inr [OF raw] refresh_for_static [OF rf] refresh_for_others [OF rf] l st'
    by auto
qed

lemma detect_loop_frame:
  assumes "detect_loop is st = Inr st'" and "distinct is"
  shows "length (s_heap st) \<le> length (s_heap st') \<and>
         (\<forall>r<length (s_heap st). s_heap st' ! r = s_heap st ! r) \<and>
         same_static (s_det st) (s_det st') \<and>
         length (s_x st') = length (s_x st) \<and>
         (\<forall>p. p \<notin> set is \<longrightarrow> s_x st' ! p = s_x st ! p \<and>
                d_grid (s_det st') ! p = d_grid (s_det st) ! p \<and>
                d_anchor_grid (s_det st') ! p = d_anchor_grid (s_det st) ! p) \<and>
         (\<forall>i\<in>set is. \<exists>c r. conv_out (s_det st) (s_x st) i = Inr c \<and>
                fst (snd (shape4 c)) = d_na (s_det st) * d_no (s_det st) \<and>
                s_x st' ! i = Ref r \<and> r < length (s_heap st') \<and>
                s_heap st' ! r = view_permute (d_na (s_det st)) (d_no (s_det st)) c)"
  using assms
proof (induction "is" arbitrary: st)
  case Nil
  then show ?case by (simp add: same_static_refl)
next
  case (Cons i rest)
  from Cons.prems obtain st1 where
    step: "detect_scale i st = Inr st1" and loop: "detect_loop rest st1 = Inr st'"
    by (auto simp: ebind_Inr_iff)
  from Cons.prems have d: "distinct rest" and ni: "i \<notin> set rest"
    by simp_all
  from detect_scale_frame [OF step] obtain c where
    c: "conv_out (s_det st) (s_x st) i = Inr c" and
    ch: "fst (snd (shape4 c)) = d_na (s_det st) * d_no (s_det st)" and
    x1: "s_x st1 = (s_x st)[i := Ref (length (s_heap st))]" and
    l1: "length (s_heap st) < length (s_heap st1)" and
    raw: "s_heap st1 ! length (s_heap st) = view_permute (d_na (s_det st)) (d_no (s_det st)) c" and
    pre1: "\<forall>r<length (s_heap st). s_heap st1 ! r = s_heap st ! r" and
    ss1: "same_static (s_det st) (s_det st1)" and
    g1: "\<forall>p. p \<noteq> i \<longrightarrow> d_grid (s_det st1) ! p = d_grid (s_det st) ! p \<and>
                          d_anchor_grid (s_det st1) ! p = d_anchor_grid (s_det st) ! p"
    by blast
  from Cons.IH [OF loop d] have
    l2: "length (s_heap st1) \<le> length (s_heap st')" and
    pre2: "\<forall>r<length (s_heap st1). s_heap st' ! r = s_heap st1 ! r" and
    ss2: "same_static (s_det st1) (s_det st')" and
    lx: "length (s_x st') = length (s_x st1)" and
    out2: "\<forall>p. p \<notin> set rest \<longrightarrow> s_x st' ! p = s_x st1 ! p \<and>
                d_grid (s_det st') ! p = d_grid (s_det st1) ! p \<and>
                d_anchor_grid (s_det st') ! p = d_anchor_grid (s_det st1) ! p" and
    in2: "\<forall>j\<in>set rest. \<exists>c r. conv_out (s_det st1) (s_x st1) j = Inr c \<and>
                fst (snd (shape4 c)) = d_na (s_det st1) * d_no (s_det st1) \<and>
                s_x st' ! j = Ref r \<and> r < length (s_heap st') \<and>
                s_heap st' ! r = view_permute (d_na (s_det st1)) (d_no (s_det st1)) c"
    by blast+
  from ss1 have st: "d_m (s_det st1) = d_m (s_det st)" "d_na (s_det st1) = d_na (s_det st)"
    "d_no (s_det st1) = d_no (s_det st)"
    by (simp_all add: same_static_def)
  from conv_out_Inr [OF c] have ilen: "i < length (s_x st)"
    by simp
  have a: "length (s_heap st) \<le> length (s_heap st')"
    using l1 l2 by simp
  have b: "\<forall>r<length (s_heap st). s_heap st' ! r = s_heap st ! r"
    using pre1 pre2 l1 by simp
  have cc: "same_static (s_det st) (s_det st')"
    using ss1 ss2 by (rule same_static_trans)
  have dd: "length (s_x st') = length (s_x st)"
    using lx x1 by simp
  have e: "\<forall>p. p \<notin> set (i # rest) \<longrightarrow> s_x st' ! p = s_x st ! p \<and>
                d_grid (s_det st') ! p = d_grid (s_det st) ! p \<and>
                d_anchor_grid (s_det st') ! p = d_anchor_grid (s_det st) ! p"
    using out2 g1 x1 by simp
  have f: "\<forall>j\<in>set (i # rest). \<exists>c r. conv_out (s_det st) (s_x st) j = Inr c \<and>
                fst (snd (shape4 c)) = d_na (s_det st) * d_no (s_det st) \<and>
                s_x st' ! j = Ref r \<and> r < length (s_heap st') \<and>
                s_heap st' ! r = view_permute (d_na (s_det st)) (d_no (s_det st)) c"
  proof
    fix j assume "j \<in> set (i # rest)"
    then consider "j = i" | "j \<in> set rest" "j \<noteq> i"
      using ni by auto
    then show "\<exists>c r. conv_out (s_det st) (s_x st) j = Inr c \<and>
                fst (snd (shape4 c)) = d_na (s_det st) * d_no (s_det st) \<and>
                s_x st' ! j = Ref r \<and> r < length (s_heap st') \<and>
                s_heap st' ! r = view_permute (d_na (s_det st)) (d_no (s_det st)) c"
    proof cases
      case 1
      have "s_x st' ! i = Ref (length (s_heap st))"
        using out2 ni x1 ilen by simp
      moreover have "length (s_heap st) < length (s_heap st')"
        using l1 l2 by simp
      moreover have "s_heap st' ! length (s_heap st) =
          view_permute (d_na (s_det st)) (d_no (s_det st)) c"
        using pre2 l1 raw by simp
      ultimately show ?thesis
        using c ch 1 by blast
    next
      case 2
      have eq: "conv_out (s_det st1) (s_x st1) j = conv_out (s_det st) (s_x st) j"
        using 2 x1 st by (intro conv_out_static) simp_all
      from in2 2 obtain c' r where
        "conv_out (s_det st1) (s_x st1) j = Inr c'"
        "fst (snd (shape4 c')) = d_na (s_det st1) * d_no (s_det st1)"
        "s_x st' ! j = Ref r" "r < length (s_heap st')"
        "s_heap st' ! r = view_permute (d_na (s_det st1)) (d_no (s_det st1)) c'"
        by blast
      then show ?thesis
        unfolding eq st by blast
    qed
  qed
  from a b cc dd e f show ?case
    by blast
qed


lemma detect_scale_train_total:
  assumes "conv_out (s_det st) (s_x st) i = Inr c"
    and "fst (snd (shape4 c)) = d_na (s_det st) * d_no (s_det st)"
    and "d_training (s_det st)"
  shows "detect_scale i st =
           Inr (st\<lparr>s_heap := s_heap st @ [view_permute (d_na (s_det st)) (d_no (s_det st)) c],
                    s_x := (s_x st)[i := Ref (length (s_heap st))]\<rparr>)"
  using assms
  by (cases "shape4 c") (simp add: detect_scale_def raw_scale_def alloc_def Let_def)

lemma detect_loop_train_total:
  assumes "distinct is" and "d_training (s_det st)"
    and "\<forall>i\<in>set is. \<exists>c. conv_out (s_det st) (s_x st) i = Inr c \<and>
            fst (snd (shape4 c)) = d_na (s_det st) * d_no (s_det st)"
  shows "\<exists>st'. detect_loop is st = Inr st'"
  using assms
proof (induction "is" arbitrary: st)
  case Nil
  then show ?case by simp
next
  case (Cons i rest)
  from Cons.prems obtain c where
    c: "conv_out (s_det st) (s_x st) i = Inr c"
       "fst (snd (shape4 c)) = d_na (s_det st) * d_no (s_det st)"
    by auto
  let ?st1 = "st\<lparr>s_heap := s_heap st @ [view_permute (d_na (s_det st)) (d_no (s_det st)) c],
                  s_x := (s_x st)[i := Ref (length (s_heap st))]\<rparr>"
  have step: "detect_scale i st = Inr ?st1"
    using c Cons.prems(2) by (rule detect_scale_train_total)
  have "\<forall>j\<in>set rest. \<exists>c. conv_out (s_det ?st1) (s_x ?st1) j = Inr c \<and>
            fst (snd (shape4 c)) = d_na (s_det ?st1) * d_no (s_det ?st1)"
  proof
    fix j assume j: "j \<in> set rest"
    with Cons.prems(1) have "j \<noteq> i" by auto
    then have "conv_out (s_det ?st1) (s_x ?st1) j = conv_out (s_det st) (s_x st) j"
      by (intro conv_out_static) simp_all
    with Cons.prems(3) j
    show "\<exists>c. conv_out (s_det ?st1) (s_x ?st1) j = Inr c \<and>
            fst (snd (shape4 c)) = d_na (s_det ?st1) * d_no (s_det ?st1)"
      by simp
  qed
  with Cons.IH [of ?st1] Cons.prems(1,2) obtain st' where "detect_loop rest ?st1 = Inr st'"
    by auto
  with step show ?case by simp
qed

text \<open>
  C10: when a call in inference returns \<open>(torch.cat(z, 1), x)\<close>, the same call on a
  head in training mode returns a list whose entries, read in the store it leaves,
  are the entries of \<open>x\<close> read in the store the inference call leaves: for each
  scale the convolution output, reshaped and permuted, before any sigmoid. The
  assignments of the decoding step reach only the tensor \<open>y\<close>.
\<close>

theorem raw_tensors_untouched:
  assumes run: "detect_forward d h x = Inr (Infer zc xs, d', h')"
  shows "\<exists>xt dt ht.
           detect_forward (d\<lparr>d_training := True\<rparr>) h x = Inr (Train xt, dt, ht) \<and>
           map (deref ht) xt = map (deref h') xs \<and>
           (\<forall>i<d_nl d. \<exists>c. i < length (d_m d) \<and> i < length x \<and> (d_m d ! i) (x ! i) = Inr c \<and>
                  deref ht (xt ! i) = Some (view_permute (d_na d) (d_no d) c) \<and>
                  deref h' (xs ! i) = Some (view_permute (d_na d) (d_no d) c))"
proof -
  let ?st0 = "\<lparr>s_det = d, s_heap = h, s_x = map Input x, s_z = []\<rparr>"
  let ?dt = "d\<lparr>d_training := True\<rparr>"
  let ?st0t = "\<lparr>s_det = ?dt, s_heap = h, s_x = map Input x, s_z = []\<rparr>"
  from run have inf: "\<not> d_training d"
    by (auto simp: detect_forward_def ebind_Inr_iff split: if_splits)
  with run obtain st where
    loop: "detect_loop [0..<d_nl d] ?st0 = Inr st" and
    xs: "xs = s_x st" and h': "h' = s_heap st"
    by (auto simp: detect_forward_def ebind_Inr_iff)
  from detect_loop_frame [OF loop distinct_upt] have
    lx: "length (s_x st) = length x" and
    out: "\<forall>p. p \<notin> set [0..<d_nl d] \<longrightarrow> s_x st ! p = map Input x ! p" and
    ins: "\<forall>i\<in>set [0..<d_nl d]. \<exists>c r. conv_out d (map Input x) i = Inr c \<and>
                fst (snd (shape4 c)) = d_na d * d_no d \<and>
                s_x st ! i = Ref r \<and> r < length (s_heap st) \<and>
                s_heap st ! r = view_permute (d_na d) (d_no d) c"
    by simp_all
  have same: "\<And>i. conv_out ?dt (map Input x) i = conv_out d (map Input x) i"
    by (intro conv_out_static) simp_all
  have "\<forall>i\<in>set [0..<d_nl d]. \<exists>c. conv_out (s_det ?st0t) (s_x ?st0t) i = Inr c \<and>
            fst (snd (shape4 c)) = d_na (s_det ?st0t) * d_no (s_det ?st0t)"
    using ins same by auto
  from detect_loop_train_total [OF distinct_upt _ this] obtain stt where
    loopt: "detect_loop [0..<d_nl d] ?st0t = Inr stt"
    by auto
  then have fwd: "detect_forward ?dt h x = Inr (Train (s_x stt), s_det stt, s_heap stt)"
    by (simp add: detect_forward_def)
  from detect_loop_frame [OF loopt distinct_upt] have
    lxt: "length (s_x stt) = length x" and
    outt: "\<forall>p. p \<notin> set [0..<d_nl d] \<longrightarrow> s_x stt ! p = map Input x ! p" and
    inst: "\<forall>i\<in>set [0..<d_nl d]. \<exists>c r. conv_out d (map Input x) i = Inr c \<and>
                fst (snd (shape4 c)) = d_na d * d_no d \<and>
                s_x stt ! i = Ref r \<and> r < length (s_heap stt) \<and>
                s_heap stt ! r = view_permute (d_na d) (d_no d) c"
    using same by simp_all
  have each: "\<forall>i<d_nl d. \<exists>c. i < length (d_m d) \<and> i < length x \<and> (d_m d ! i) (x ! i) = Inr c \<and>
                  deref (s_heap stt) (s_x stt ! i) = Some (view_permute (d_na d) (d_no d) c) \<and>
                  deref (s_heap st) (s_x st ! i) = Some (view_permute (d_na d) (d_no d) c)"
  proof (intro allI impI)
    fix i assume "i < d_nl d"
    then have i: "i \<in> set [0..<d_nl d]" by simp
    from ins [rule_format, OF i] obtain c r where
      c: "conv_out d (map Input x) i = Inr c" and
      r: "s_x st ! i = Ref r" "r < length (s_heap st)"
         "s_heap st ! r = view_permute (d_na d) (d_no d) c"
      by blast
    from inst [rule_format, OF i] obtain c' r' where
      c': "conv_out d (map Input x) i = Inr c'" and
      r': "s_x stt ! i = Ref r'" "r' < length (s_heap stt)"
          "s_heap stt ! r' = view_permute (d_na d) (d_no d) c'"
      by blast
    from c c' have cc: "c' = c" by simp
    from conv_out_Inr [OF c] have "i < length (d_m d)" "i < length x" "(d_m d ! i) (x ! i) = Inr c"
      by auto
    with r r' cc
    show "\<exists>c. i < length (d_m d) \<and> i < length x \<and> (d_m d ! i) (x ! i) = Inr c \<and>
                  deref (s_heap stt) (s_x stt ! i) = Some (view_permute (d_na d) (d_no d) c) \<and>
                  deref (s_heap st) (s_x st ! i) = Some (view_permute (d_na d) (d_no d) c)"
      by (auto simp: deref_def)
  qed
  have "map (deref (s_heap stt)) (s_x stt) = map (deref (s_heap st)) (s_x st)"
  proof (rule nth_equalityI)
    show "length (map (deref (s_heap stt)) (s_x stt)) = length (map (deref (s_heap st)) (s_x st))"
      using lx lxt by simp
  next
    fix p assume "p < length (map (deref (s_heap stt)) (s_x stt))"
    then have p: "p < length x" using lxt by simp
    show "map (deref (s_heap stt)) (s_x stt) ! p = map (deref (s_heap st)) (s_x st) ! p"
    proof (cases "p < d_nl d")
      case True
      with each p lx lxt show ?thesis by auto
    next
      case False
      with out outt have "s_x st ! p = Input (x ! p)" "s_x stt ! p = Input (x ! p)"
        using p by simp_all
      with p lx lxt show ?thesis by (simp add: deref_def)
    qed
  qed
  with fwd each xs h' show ?thesis
    by blast
qed


lemma make_grid_static:
  assumes "same_static d1 d2"
  shows "make_grid d1 nx ny i = make_grid d2 nx ny i"
  using assms by (simp add: make_grid_def same_static_def cong: if_cong)

lemma grid_rule_static:
  assumes "same_static d1 d2" and "d_grid d1 ! i = d_grid d2 ! i"
    and "d_anchor_grid d1 ! i = d_anchor_grid d2 ! i"
  shows "grid_rule d1 i c G AG = grid_rule d2 i c G AG"
  using assms make_grid_static [OF assms(1)]
  by (simp add: grid_rule_def same_static_def split: prod.splits)

lemma refresh_for_rule:
  assumes "refresh_for d i c = Inr d1"
  shows "grid_rule d i c (d_grid d1 ! i) (d_anchor_grid d1 ! i) \<and> i < length (d_grid d)"
  using assms
  by (auto simp: refresh_for_def grid_rule_def refresh_grid_def rebuild_grid_def ebind_Inr_iff
      nth_err_def split: prod.splits if_splits)

lemma detect_loop_infer:
  assumes "detect_loop is st = Inr st'" and "distinct is"
    and "\<not> d_training (s_det st)" and "4 \<le> d_no (s_det st)"
  shows "\<exists>zs. s_z st' = s_z st @ zs \<and> length zs = length is \<and>
           (\<forall>n<length is. \<exists>c.
              conv_out (s_det st) (s_x st) (is ! n) = Inr c \<and>
              is ! n < length (d_stride (s_det st)) \<and>
              is ! n < length (d_grid (s_det st)) \<and>
              grid_rule (s_det st) (is ! n) c (d_grid (s_det st') ! (is ! n))
                (d_anchor_grid (s_det st') ! (is ! n)) \<and>
              zs ! n < length (s_heap st') \<and>
              s_heap st' ! (zs ! n) =
                decode_as_specified (d_stride (s_det st) ! (is ! n))
                  (view_permute (d_na (s_det st)) (d_no (s_det st)) c)
                  (the_slot (d_grid (s_det st') ! (is ! n)))
                  (the_slot (d_anchor_grid (s_det st') ! (is ! n))))"
  using assms
proof (induction "is" arbitrary: st)
  case Nil
  then show ?case by simp
next
  case (Cons i rest)
  let ?d = "s_det st"
  from Cons.prems obtain st1 where
    step: "detect_scale i st = Inr st1" and loop: "detect_loop rest st1 = Inr st'"
    by (auto simp: ebind_Inr_iff)
  from Cons.prems have d: "distinct rest" and ni: "i \<notin> set rest"
    by simp_all
  from detect_scale_infer [OF step Cons.prems(3,4)] obtain c where
    c: "conv_out ?d (s_x st) i = Inr c" and
    rf: "refresh_for ?d i c = Inr (s_det st1)" and
    si: "i < length (d_stride ?d)" and
    x1: "s_x st1 = (s_x st)[i := Ref (length (s_heap st))]" and
    z1: "s_z st1 = s_z st @ [length (s_heap st1) - 1]" and
    h1: "s_heap st1 =
             s_heap st @ [view_permute (d_na ?d) (d_no ?d) c] @
               (if d_inplace ?d then []
                else [map5 sigmoid (view_permute (d_na ?d) (d_no ?d) c)]) @
               [decode_as_specified (d_stride ?d ! i) (view_permute (d_na ?d) (d_no ?d) c)
                  (the_slot (d_grid (s_det st1) ! i)) (the_slot (d_anchor_grid (s_det st1) ! i))]"
    by blast
  from refresh_for_static [OF rf] have ss: "same_static ?d (s_det st1)" .
  then have keep: "d_training (s_det st1) = d_training ?d" "d_no (s_det st1) = d_no ?d"
    "d_na (s_det st1) = d_na ?d" "d_stride (s_det st1) = d_stride ?d" "d_m (s_det st1) = d_m ?d"
    "length (d_grid (s_det st1)) = length (d_grid ?d)"
    by (simp_all add: same_static_def)
  from refresh_for_rule [OF rf] have
    rule1: "grid_rule ?d i c (d_grid (s_det st1) ! i) (d_anchor_grid (s_det st1) ! i)" and
    gi: "i < length (d_grid ?d)"
    by simp_all
  from detect_loop_frame [OF loop d] have
    pre: "\<forall>r<length (s_heap st1). s_heap st' ! r = s_heap st1 ! r" and
    hl: "length (s_heap st1) \<le> length (s_heap st')" and
    out: "\<forall>p. p \<notin> set rest \<longrightarrow> d_grid (s_det st') ! p = d_grid (s_det st1) ! p \<and>
                d_anchor_grid (s_det st') ! p = d_anchor_grid (s_det st1) ! p"
    by blast+
  from out ni have gi': "d_grid (s_det st') ! i = d_grid (s_det st1) ! i"
    "d_anchor_grid (s_det st') ! i = d_anchor_grid (s_det st1) ! i"
    by simp_all
  from Cons.IH [OF loop d] Cons.prems(3,4) keep obtain zs where
    zs: "s_z st' = s_z st1 @ zs" "length zs = length rest" and
    each: "\<forall>n<length rest. \<exists>c.
              conv_out (s_det st1) (s_x st1) (rest ! n) = Inr c \<and>
              rest ! n < length (d_stride (s_det st1)) \<and>
              rest ! n < length (d_grid (s_det st1)) \<and>
              grid_rule (s_det st1) (rest ! n) c (d_grid (s_det st') ! (rest ! n))
                (d_anchor_grid (s_det st') ! (rest ! n)) \<and>
              zs ! n < length (s_heap st') \<and>
              s_heap st' ! (zs ! n) =
                decode_as_specified (d_stride (s_det st1) ! (rest ! n))
                  (view_permute (d_na (s_det st1)) (d_no (s_det st1)) c)
                  (the_slot (d_grid (s_det st') ! (rest ! n)))
                  (the_slot (d_anchor_grid (s_det st') ! (rest ! n)))"
    by auto
  let ?zr = "length (s_heap st1) - 1"
  let ?D = "decode_as_specified (d_stride ?d ! i) (view_permute (d_na ?d) (d_no ?d) c)
                  (the_slot (d_grid (s_det st1) ! i)) (the_slot (d_anchor_grid (s_det st1) ! i))"
  have zr: "?zr < length (s_heap st1)" and zrv: "s_heap st1 ! ?zr = ?D"
    by (simp_all add: h1 nth_append)
  have first: "conv_out ?d (s_x st) i = Inr c \<and>
              i < length (d_stride ?d) \<and> i < length (d_grid ?d) \<and>
              grid_rule ?d i c (d_grid (s_det st') ! i) (d_anchor_grid (s_det st') ! i) \<and>
              ?zr < length (s_heap st') \<and>
              s_heap st' ! ?zr =
                decode_as_specified (d_stride ?d ! i) (view_permute (d_na ?d) (d_no ?d) c)
                  (the_slot (d_grid (s_det st') ! i)) (the_slot (d_anchor_grid (s_det st') ! i))"
    using c si gi rule1 zr zrv pre hl unfolding gi' by auto
  have later: "\<forall>n<length rest. \<exists>c.
              conv_out ?d (s_x st) (rest ! n) = Inr c \<and>
              rest ! n < length (d_stride ?d) \<and>
              rest ! n < length (d_grid ?d) \<and>
              grid_rule ?d (rest ! n) c (d_grid (s_det st') ! (rest ! n))
                (d_anchor_grid (s_det st') ! (rest ! n)) \<and>
              zs ! n < length (s_heap st') \<and>
              s_heap st' ! (zs ! n) =
                decode_as_specified (d_stride ?d ! (rest ! n))
                  (view_permute (d_na ?d) (d_no ?d) c)
                  (the_slot (d_grid (s_det st') ! (rest ! n)))
                  (the_slot (d_anchor_grid (s_det st') ! (rest ! n)))"
  proof (intro allI impI)
    fix n assume n: "n < length rest"
    then have ji: "rest ! n \<noteq> i" using ni by (metis nth_mem)
    have ceq: "conv_out (s_det st1) (s_x st1) (rest ! n) = conv_out ?d (s_x st) (rest ! n)"
      using ji x1 keep by (intro conv_out_static) simp_all
    have geq: "grid_rule (s_det st1) (rest ! n) = grid_rule ?d (rest ! n)"
    proof (intro ext)
      fix c' G AG
      from refresh_for_others [OF rf ji] same_static_def ss
      show "grid_rule (s_det st1) (rest ! n) c' G AG = grid_rule ?d (rest ! n) c' G AG"
        by (intro grid_rule_static) (simp_all add: same_static_def)
    qed
    from each [rule_format, OF n] obtain c' where
      a: "conv_out (s_det st1) (s_x st1) (rest ! n) = Inr c'"
         "rest ! n < length (d_stride (s_det st1))"
         "rest ! n < length (d_grid (s_det st1))"
         "grid_rule (s_det st1) (rest ! n) c' (d_grid (s_det st') ! (rest ! n))
                (d_anchor_grid (s_det st') ! (rest ! n))"
         "zs ! n < length (s_heap st')"
         "s_heap st' ! (zs ! n) =
                decode_as_specified (d_stride (s_det st1) ! (rest ! n))
                  (view_permute (d_na (s_det st1)) (d_no (s_det st1)) c')
                  (the_slot (d_grid (s_det st') ! (rest ! n)))
                  (the_slot (d_anchor_grid (s_det st') ! (rest ! n)))"
      by blast
    from a show "\<exists>c.
              conv_out ?d (s_x st) (rest ! n) = Inr c \<and>
              rest ! n < length (d_stride ?d) \<and>
              rest ! n < length (d_grid ?d) \<and>
              grid_rule ?d (rest ! n) c (d_grid (s_det st') ! (rest ! n))
                (d_anchor_grid (s_det st') ! (rest ! n)) \<and>
              zs ! n < length (s_heap st') \<and>
              s_heap st' ! (zs ! n) =
                decode_as_specified (d_stride ?d ! (rest ! n))
                  (view_permute (d_na ?d) (d_no ?d) c)
                  (the_slot (d_grid (s_det st') ! (rest ! n)))
                  (the_slot (d_anchor_grid (s_det st') ! (rest ! n)))"
      unfolding ceq geq keep by (intro exI [of _ c']) simp
  qed
  have "s_z st' = s_z st @ (?zr # zs)" "length (?zr # zs) = length (i # rest)"
    using zs z1 by simp_all
  moreover have "\<forall>n<length (i # rest). \<exists>c.
              conv_out ?d (s_x st) ((i # rest) ! n) = Inr c \<and>
              (i # rest) ! n < length (d_stride ?d) \<and>
              (i # rest) ! n < length (d_grid ?d) \<and>
              grid_rule ?d ((i # rest) ! n) c (d_grid (s_det st') ! ((i # rest) ! n))
                (d_anchor_grid (s_det st') ! ((i # rest) ! n)) \<and>
              (?zr # zs) ! n < length (s_heap st') \<and>
              s_heap st' ! ((?zr # zs) ! n) =
                decode_as_specified (d_stride ?d ! ((i # rest) ! n))
                  (view_permute (d_na ?d) (d_no ?d) c)
                  (the_slot (d_grid (s_det st') ! ((i # rest) ! n)))
                  (the_slot (d_anchor_grid (s_det st') ! ((i # rest) ! n)))"
  proof (intro allI impI)
    fix n assume n: "n < length (i # rest)"
    show "\<exists>c.
              conv_out ?d (s_x st) ((i # rest) ! n) = Inr c \<and>
              (i # rest) ! n < length (d_stride ?d) \<and>
              (i # rest) ! n < length (d_grid ?d) \<and>
              grid_rule ?d ((i # rest) ! n) c (d_grid (s_det st') ! ((i # rest) ! n))
                (d_anchor_grid (s_det st') ! ((i # rest) ! n)) \<and>
              (?zr # zs) ! n < length (s_heap st') \<and>
              s_heap st' ! ((?zr # zs) ! n) =
                decode_as_specified (d_stride ?d ! ((i # rest) ! n))
                  (view_permute (d_na ?d) (d_no ?d) c)
                  (the_slot (d_grid (s_det st') ! ((i # rest) ! n)))
                  (the_slot (d_anchor_grid (s_det st') ! ((i # rest) ! n)))"
    proof (cases n)
      case 0
      with first show ?thesis by auto
    next
      case (Suc n')
      with n later show ?thesis by simp
    qed
  qed
  ultimately show ?case by blast
qed


lemma nth_concat_take:
  assumes "i < length xss" and "p < length (xss ! i)"
  shows "concat xss ! (length (concat (take i xss)) + p) = xss ! i ! p"
proof -
  have "xss = take i xss @ xss ! i # drop (Suc i) xss"
    using assms(1) by (rule id_take_nth_drop)
  then have "concat xss = concat (take i xss) @ xss ! i @ concat (drop (Suc i) xss)"
    by (metis concat.simps(2) concat_append)
  then show ?thesis
    using assms(2) by (simp add: nth_append)
qed

lemma length_concat_map_upt:
  assumes "\<forall>i<n. length (f i) = L i"
  shows "length (concat (map f [0..<n])) = (\<Sum>i<n. L i)"
  using assms
proof (induction n)
  case 0
  then show ?case by simp
next
  case (Suc n)
  then show ?case by simp
qed

lemma shape4_rect:
  assumes "rect4 c bs ch ny nx" and "0 < bs" and "0 < ch" and "0 < ny"
  shows "shape4 c = (bs, ch, ny, nx)"
proof -
  from assms obtain b0 cr where c: "c = b0 # cr"
    by (cases c) (auto simp: rect4_def)
  with assms have lb: "length b0 = ch" and
    inner: "\<forall>chn\<in>set b0. length chn = ny \<and> (\<forall>r\<in>set chn. length r = nx)"
    by (auto simp: rect4_def)
  from lb assms(3) obtain c0 br where b0: "b0 = c0 # br"
    by (cases b0) auto
  with inner have lc: "length c0 = ny" and rows: "\<forall>r\<in>set c0. length r = nx"
    by auto
  from lc assms(4) obtain r0 rr where c0: "c0 = r0 # rr"
    by (cases c0) auto
  with rows have "length r0 = nx" by simp
  with c b0 c0 lb lc assms(1) show ?thesis
    by (simp add: shape4_def rect4_def)
qed

lemma view_permute_rect:
  assumes "shape4 c = (bs, ch, ny, nx)"
  shows "rect5 (view_permute na no c) bs na ny nx"
    and "b < bs \<Longrightarrow> a < na \<Longrightarrow> j < ny \<Longrightarrow> k < nx \<Longrightarrow>
         view_permute na no c ! b ! a ! j ! k = map (\<lambda>q. c ! b ! (a * no + q) ! j ! k) [0..<no]"
  using assms by (simp_all add: view_permute_def rect5_def)

lemma decode_as_specified_rect:
  assumes "rect5 raw bs na ny nx"
  shows "rect5 (decode_as_specified s raw g ag) bs na ny nx"
    and "b < bs \<Longrightarrow> a < na \<Longrightarrow> j < ny \<Longrightarrow> k < nx \<Longrightarrow>
         decode_as_specified s raw g ag ! b ! a ! j ! k =
           decoded_row s (raw ! b ! a ! j ! k) (g ! 0 ! a ! j ! k) (ag ! 0 ! a ! j ! k)"
  using assms by (simp_all add: decode_as_specified_def rect5_def)

lemma view3_rect:
  assumes r: "rect5 t bs na ny nx" and b: "b < bs"
  shows "length (view3 t ! b) = na * ny * nx"
    and "a < na \<Longrightarrow> j < ny \<Longrightarrow> k < nx \<Longrightarrow>
         view3 t ! b ! ((a * ny + j) * nx + k) = t ! b ! a ! j ! k"
proof -
  from r b have lt: "length t = bs" and lb: "length (t ! b) = na" and
    la: "\<forall>a<na. length (t ! b ! a) = ny" and
    lj: "\<forall>a<na. \<forall>j<ny. length (t ! b ! a ! j) = nx"
    by (auto simp: rect5_def)
  have v: "view3 t ! b = concat (map concat (t ! b))"
    using b lt by (simp add: view3_def)
  have inner: "\<forall>ya\<in>set (t ! b). \<forall>row\<in>set ya. length row = nx"
  proof (intro ballI)
    fix ya row assume "ya \<in> set (t ! b)" "row \<in> set ya"
    then obtain a j where "a < na" "ya = t ! b ! a" "j < length ya" "row = ya ! j"
      using lb by (metis in_set_conv_nth)
    with la lj show "length row = nx" by simp
  qed
  have planes: "\<forall>pl\<in>set (map concat (t ! b)). length pl = ny * nx"
  proof
    fix pl assume "pl \<in> set (map concat (t ! b))"
    then obtain a where a: "a < na" and pl: "pl = concat (t ! b ! a)"
      using lb by (auto simp: in_set_conv_nth)
    have "\<forall>row\<in>set (t ! b ! a). length row = nx"
      using inner a lb by (metis nth_mem)
    from length_concat_uniform [OF this] la a pl show "length pl = ny * nx"
      by simp
  qed
  from length_concat_uniform [OF planes] lb show "length (view3 t ! b) = na * ny * nx"
    by (simp add: v)
  assume a: "a < na" and j: "j < ny" and k: "k < nx"
  have "Suc j * nx \<le> ny * nx"
    using j by (intro mult_le_mono1) simp
  then have jk: "j * nx + k < ny * nx"
    using k by simp
  have rows: "\<forall>row\<in>set (t ! b ! a). length row = nx"
    using inner a lb by (metis nth_mem)
  have idx: "(a * ny + j) * nx + k = a * (ny * nx) + (j * nx + k)"
    by (simp add: algebra_simps)
  have "view3 t ! b ! ((a * ny + j) * nx + k) = map concat (t ! b) ! a ! (j * nx + k)"
    unfolding v idx using nth_concat_uniform [OF planes _ jk, of a] a lb by simp
  also have "\<dots> = concat (t ! b ! a) ! (j * nx + k)"
    using a lb by simp
  also have "\<dots> = t ! b ! a ! j ! k"
    using nth_concat_uniform [OF rows _ k, of j] j la a by simp
  finally show "view3 t ! b ! ((a * ny + j) * nx + k) = t ! b ! a ! j ! k" .
qed


lemma flat_index_bound:
  assumes "a < na" and "j < ny" and "k < (nx::nat)"
  shows "(a * ny + j) * nx + k < na * ny * nx"
proof -
  have "Suc a * ny \<le> na * ny"
    using assms(1) by (intro mult_le_mono1) simp
  then have "Suc (a * ny + j) \<le> na * ny"
    using assms(2) by simp
  then have "Suc (a * ny + j) * nx \<le> na * ny * nx"
    by (rule mult_le_mono1)
  then show ?thesis
    using assms(3) by simp
qed

lemma cat1_Inr:
  assumes "cat1 ts = Inr zc" and "\<forall>u\<in>set ts. length u = bs"
  shows "ts \<noteq> [] \<and> zc = map (\<lambda>b. concat (map (\<lambda>u. u ! b) ts)) [0..<bs]"
  using assms by (cases ts) (auto simp: cat1_def split: if_splits)

lemma detect_forward_infer:
  assumes run: "detect_forward d h x = Inr (Infer zc xs, d', h')" and no: "4 \<le> d_no d"
  shows "\<not> d_training d \<and>
         (\<exists>zs. length zs = d_nl d \<and> cat1 (map (\<lambda>r. view3 (h' ! r)) zs) = Inr zc \<and>
            (\<forall>n<d_nl d. \<exists>c.
               n < length (d_m d) \<and> n < length x \<and> (d_m d ! n) (x ! n) = Inr c \<and>
               n < length (d_stride d) \<and> n < length (d_grid d) \<and>
               grid_rule d n c (d_grid d' ! n) (d_anchor_grid d' ! n) \<and>
               h' ! (zs ! n) =
                 decode_as_specified (d_stride d ! n) (view_permute (d_na d) (d_no d) c)
                   (the_slot (d_grid d' ! n)) (the_slot (d_anchor_grid d' ! n))))"
proof -
  let ?st0 = "\<lparr>s_det = d, s_heap = h, s_x = map Input x, s_z = []\<rparr>"
  from run have inf: "\<not> d_training d"
    by (auto simp: detect_forward_def ebind_Inr_iff split: if_splits)
  with run obtain st where
    loop: "detect_loop [0..<d_nl d] ?st0 = Inr st" and
    cat: "cat1 (map (\<lambda>r. view3 (s_heap st ! r)) (s_z st)) = Inr zc" and
    d': "d' = s_det st" and h': "h' = s_heap st"
    by (auto simp: detect_forward_def ebind_Inr_iff)
  from detect_loop_infer [OF loop distinct_upt] inf no obtain zs where
    zs: "s_z st = zs" "length zs = d_nl d" and
    each: "\<forall>n<d_nl d. \<exists>c.
              conv_out d (map Input x) ([0..<d_nl d] ! n) = Inr c \<and>
              [0..<d_nl d] ! n < length (d_stride d) \<and>
              [0..<d_nl d] ! n < length (d_grid d) \<and>
              grid_rule d ([0..<d_nl d] ! n) c (d_grid (s_det st) ! ([0..<d_nl d] ! n))
                (d_anchor_grid (s_det st) ! ([0..<d_nl d] ! n)) \<and>
              zs ! n < length (s_heap st) \<and>
              s_heap st ! (zs ! n) =
                decode_as_specified (d_stride d ! ([0..<d_nl d] ! n))
                  (view_permute (d_na d) (d_no d) c)
                  (the_slot (d_grid (s_det st) ! ([0..<d_nl d] ! n)))
                  (the_slot (d_anchor_grid (s_det st) ! ([0..<d_nl d] ! n)))"
    by auto
  have "\<forall>n<d_nl d. \<exists>c.
               n < length (d_m d) \<and> n < length x \<and> (d_m d ! n) (x ! n) = Inr c \<and>
               n < length (d_stride d) \<and> n < length (d_grid d) \<and>
               grid_rule d n c (d_grid d' ! n) (d_anchor_grid d' ! n) \<and>
               h' ! (zs ! n) =
                 decode_as_specified (d_stride d ! n) (view_permute (d_na d) (d_no d) c)
                   (the_slot (d_grid d' ! n)) (the_slot (d_anchor_grid d' ! n))"
  proof (intro allI impI)
    fix n assume n: "n < d_nl d"
    then have idx: "[0..<d_nl d] ! n = n" by simp
    from each [rule_format, OF n] obtain c where
      a: "conv_out d (map Input x) n = Inr c"
         "n < length (d_stride d)" "n < length (d_grid d)"
         "grid_rule d n c (d_grid (s_det st) ! n) (d_anchor_grid (s_det st) ! n)"
         "s_heap st ! (zs ! n) =
                decode_as_specified (d_stride d ! n) (view_permute (d_na d) (d_no d) c)
                  (the_slot (d_grid (s_det st) ! n)) (the_slot (d_anchor_grid (s_det st) ! n))"
      unfolding idx by blast
    from conv_out_Inr [OF a(1)] have "n < length (d_m d)" "n < length x"
      "(d_m d ! n) (x ! n) = Inr c"
      by auto
    with a show "\<exists>c.
               n < length (d_m d) \<and> n < length x \<and> (d_m d ! n) (x ! n) = Inr c \<and>
               n < length (d_stride d) \<and> n < length (d_grid d) \<and>
               grid_rule d n c (d_grid d' ! n) (d_anchor_grid d' ! n) \<and>
               h' ! (zs ! n) =
                 decode_as_specified (d_stride d ! n) (view_permute (d_na d) (d_no d) c)
                   (the_slot (d_grid d' ! n)) (the_slot (d_anchor_grid d' ! n))"
      unfolding d' h' by (intro exI [of _ c]) simp
  qed
  with inf cat zs h' show ?thesis
    by blast
qed

text \<open>
  C3: in inference, on convolution outputs of shape \<open>(bs, na * no, ny i, nx i)\<close>, the
  prediction of batch entry \<open>b\<close> at position
  \<open>(sum over the scales before i of na * ny * nx) + (a * ny i + j) * nx i + k\<close> of the
  first component is the decoding of the raw outputs of scale \<open>i\<close>, anchor \<open>a\<close>, row
  \<open>j\<close>, column \<open>k\<close>: \<open>xy = (sigmoid(raw_xy) * 2 - 0.5 + grid_i) * stride_i\<close>,
  \<open>wh = (sigmoid(raw_wh) * 2)^2 * anchor_grid_i\<close>, and the sigmoid of the objectness
  and class outputs; \<open>grid_i\<close> and \<open>anchor_grid_i\<close> are the cache entries of the scale
  as the call leaves them. Each scale is flattened over anchors, rows and columns,
  and the scales follow one another on the prediction axis.
\<close>

theorem decode_formula:
  assumes run: "detect_forward d h x = Inr (Infer zc xs, d', h')"
    and no: "4 \<le> d_no d" and na: "0 < d_na d" and bs: "0 < bs"
    and conv: "\<forall>i<d_nl d. (d_m d ! i) (x ! i) = Inr (cs i) \<and>
                 rect4 (cs i) bs (d_na d * d_no d) (ny i) (nx i) \<and> 0 < ny i \<and> 0 < nx i"
  shows "length zc = bs \<and>
         (\<forall>b<bs. length (zc ! b) = (\<Sum>i<d_nl d. d_na d * ny i * nx i)) \<and>
         (\<forall>i<d_nl d. \<forall>b<bs. \<forall>a<d_na d. \<forall>j<ny i. \<forall>k<nx i.
            zc ! b ! ((\<Sum>i'<i. d_na d * ny i' * nx i') + (a * ny i + j) * nx i + k) =
              decoded_row (d_stride d ! i)
                (map (\<lambda>q. cs i ! b ! (a * d_no d + q) ! j ! k) [0..<d_no d])
                (the_slot (d_grid d' ! i) ! 0 ! a ! j ! k)
                (the_slot (d_anchor_grid d' ! i) ! 0 ! a ! j ! k))"
proof -
  define D where "D n = decode_as_specified (d_stride d ! n) (view_permute (d_na d) (d_no d) (cs n))
                   (the_slot (d_grid d' ! n)) (the_slot (d_anchor_grid d' ! n))" for n
  define L where "L n = d_na d * ny n * nx n" for n
  from detect_forward_infer [OF run no] obtain zs where
    lzs: "length zs = d_nl d" and
    cat: "cat1 (map (\<lambda>r. view3 (h' ! r)) zs) = Inr zc" and
    each: "\<forall>n<d_nl d. \<exists>c. (d_m d ! n) (x ! n) = Inr c \<and>
               h' ! (zs ! n) =
                 decode_as_specified (d_stride d ! n) (view_permute (d_na d) (d_no d) c)
                   (the_slot (d_grid d' ! n)) (the_slot (d_anchor_grid d' ! n))"
    by blast
  have hz: "\<forall>n<d_nl d. h' ! (zs ! n) = D n"
  proof (intro allI impI)
    fix n assume n: "n < d_nl d"
    from each [rule_format, OF n] obtain c where
      "(d_m d ! n) (x ! n) = Inr c" and
      hc: "h' ! (zs ! n) =
                 decode_as_specified (d_stride d ! n) (view_permute (d_na d) (d_no d) c)
                   (the_slot (d_grid d' ! n)) (the_slot (d_anchor_grid d' ! n))"
      by blast
    with conv n have "c = cs n" by simp
    with hc show "h' ! (zs ! n) = D n" by (simp add: D_def)
  qed
  have chan: "0 < d_na d * d_no d"
    using na no by simp
  have sh: "\<forall>n<d_nl d. shape4 (cs n) = (bs, d_na d * d_no d, ny n, nx n)"
    using conv bs chan by (auto intro: shape4_rect)
  have raw: "\<forall>n<d_nl d. rect5 (view_permute (d_na d) (d_no d) (cs n)) bs (d_na d) (ny n) (nx n)"
    using sh view_permute_rect(1) by blast
  have rD: "\<forall>n<d_nl d. rect5 (D n) bs (d_na d) (ny n) (nx n)"
    using raw decode_as_specified_rect(1) unfolding D_def by blast
  have views: "map (\<lambda>r. view3 (h' ! r)) zs = map (\<lambda>n. view3 (D n)) [0..<d_nl d]"
    using hz lzs by (intro nth_equalityI) simp_all
  have lv: "\<forall>u\<in>set (map (\<lambda>n. view3 (D n)) [0..<d_nl d]). length u = bs"
    using rD by (auto simp: view3_def rect5_def)
  from cat1_Inr [OF cat [unfolded views] lv] have
    zc: "zc = map (\<lambda>b. concat (map (\<lambda>u. u ! b) (map (\<lambda>n. view3 (D n)) [0..<d_nl d]))) [0..<bs]"
    by simp
  have zb: "\<And>b. b < bs \<Longrightarrow> zc ! b = concat (map (\<lambda>n. view3 (D n) ! b) [0..<d_nl d])"
    by (simp add: zc comp_def)
  have len: "\<And>b n. b < bs \<Longrightarrow> n < d_nl d \<Longrightarrow> length (view3 (D n) ! b) = L n"
    using rD view3_rect(1) unfolding L_def by blast
  have c1: "length zc = bs"
    by (simp add: zc)
  have c2: "\<forall>b<bs. length (zc ! b) = (\<Sum>i<d_nl d. d_na d * ny i * nx i)"
  proof (intro allI impI)
    fix b assume b: "b < bs"
    have "length (concat (map (\<lambda>n. view3 (D n) ! b) [0..<d_nl d])) = (\<Sum>i<d_nl d. L i)"
      using len [OF b] by (intro length_concat_map_upt) simp
    then show "length (zc ! b) = (\<Sum>i<d_nl d. d_na d * ny i * nx i)"
      using zb [OF b] by (simp add: L_def)
  qed
  have c3: "\<forall>i<d_nl d. \<forall>b<bs. \<forall>a<d_na d. \<forall>j<ny i. \<forall>k<nx i.
            zc ! b ! ((\<Sum>i'<i. d_na d * ny i' * nx i') + (a * ny i + j) * nx i + k) =
              decoded_row (d_stride d ! i)
                (map (\<lambda>q. cs i ! b ! (a * d_no d + q) ! j ! k) [0..<d_no d])
                (the_slot (d_grid d' ! i) ! 0 ! a ! j ! k)
                (the_slot (d_anchor_grid d' ! i) ! 0 ! a ! j ! k)"
  proof (intro allI impI)
    fix i b a j k
    assume i: "i < d_nl d" and b: "b < bs" and a: "a < d_na d" and j: "j < ny i" and k: "k < nx i"
    let ?xss = "map (\<lambda>n. view3 (D n) ! b) [0..<d_nl d]"
    let ?p = "(a * ny i + j) * nx i + k"
    have tk: "take i ?xss = map (\<lambda>n. view3 (D n) ! b) [0..<i]"
      using i by (simp add: take_map)
    have off: "length (concat (take i ?xss)) = (\<Sum>i'<i. L i')"
      unfolding tk using len [OF b] i by (intro length_concat_map_upt) simp
    have p: "?p < length (?xss ! i)"
      using len [OF b i] i flat_index_bound [OF a j k] by (simp add: L_def)
    have "zc ! b ! ((\<Sum>i'<i. L i') + ?p) = ?xss ! i ! ?p"
      unfolding zb [OF b] off [symmetric] using i p by (intro nth_concat_take) simp_all
    also have "\<dots> = view3 (D i) ! b ! ?p"
      using i by simp
    also have "\<dots> = D i ! b ! a ! j ! k"
      using view3_rect(2) [OF rD [rule_format, OF i] b a j k] .
    also have "\<dots> = decoded_row (d_stride d ! i)
                (view_permute (d_na d) (d_no d) (cs i) ! b ! a ! j ! k)
                (the_slot (d_grid d' ! i) ! 0 ! a ! j ! k)
                (the_slot (d_anchor_grid d' ! i) ! 0 ! a ! j ! k)"
      unfolding D_def
      using decode_as_specified_rect(2) [OF raw [rule_format, OF i] b a j k] .
    also have "view_permute (d_na d) (d_no d) (cs i) ! b ! a ! j ! k =
                 map (\<lambda>q. cs i ! b ! (a * d_no d + q) ! j ! k) [0..<d_no d]"
      using view_permute_rect(2) [OF sh [rule_format, OF i] b a j k] .
    finally show "zc ! b ! ((\<Sum>i'<i. d_na d * ny i' * nx i') + (a * ny i + j) * nx i + k) =
              decoded_row (d_stride d ! i)
                (map (\<lambda>q. cs i ! b ! (a * d_no d + q) ! j ! k) [0..<d_no d])
                (the_slot (d_grid d' ! i) ! 0 ! a ! j ! k)
                (the_slot (d_anchor_grid d' ! i) ! 0 ! a ! j ! k)"
      by (simp add: L_def add.assoc)
  qed
  from c1 c2 c3 show ?thesis
    by blast
qed


lemma make_grid_Inr:
  assumes "make_grid d nx ny i = Inr (g, ag)"
  shows "length g = 1 \<and> length ag = 1 \<and> length (g ! 0) = d_na d \<and> length (ag ! 0) = d_na d \<and>
         (\<forall>a<d_na d. length (g ! 0 ! a) = ny \<and> length (ag ! 0 ! a) = ny \<and>
            (\<forall>j<ny. length (g ! 0 ! a ! j) = nx \<and> length (ag ! 0 ! a ! j) = nx \<and>
               (\<forall>k<nx. g ! 0 ! a ! j ! k = [real k, real j] \<and>
                        ag ! 0 ! a ! j ! k =
                          [d_anchors d ! i ! a ! 0 * d_stride d ! i,
                           d_anchors d ! i ! a ! 1 * d_stride d ! i])))"
proof -
  let ?an = "d_anchors d ! i" and ?s = "d_stride d ! i"
  from assms have i: "i < length (d_anchors d)" "i < length (d_stride d)" and
    an: "length ?an = d_na d" "\<forall>p\<in>set ?an. length p = 2" and
    g: "g = [replicate (d_na d) (map (\<lambda>j. map (\<lambda>k. [real k, real j]) [0..<nx]) [0..<ny])]" and
    ag: "ag = [map (\<lambda>p. replicate ny (replicate nx (map (\<lambda>v. v * ?s) p))) ?an]"
    by (auto simp: make_grid_def nth_err_def ebind_Inr_iff split: if_splits)
  have pair: "\<And>a. a < d_na d \<Longrightarrow> map (\<lambda>v. v * ?s) (?an ! a) = [?an ! a ! 0 * ?s, ?an ! a ! 1 * ?s]"
  proof -
    fix a assume "a < d_na d"
    with an have "length (?an ! a) = 2" by simp
    then obtain u v where "?an ! a = [u, v]"
      by (cases "?an ! a"; cases "tl (?an ! a)") auto
    then show "map (\<lambda>v. v * ?s) (?an ! a) = [?an ! a ! 0 * ?s, ?an ! a ! 1 * ?s]"
      by simp
  qed
  show ?thesis
    using an(1) pair by (simp add: g ag)
qed

text \<open>
  C5: in inference, for scale \<open>i\<close> with a convolution output of spatial size
  \<open>(ny, nx)\<close>: if \<open>onnx_dynamic\<close> is off and the cached grid has that size, the call
  leaves both cache entries as they were (whatever they hold); otherwise both are
  rebuilt: the new grid has shape \<open>(1, na, ny, nx, 2)\<close> and holds \<open>(k, j)\<close> at row \<open>j\<close>,
  column \<open>k\<close> for every anchor, so its coordinates span \<open>[0, nx)\<close> by \<open>[0, ny)\<close>, and the
  new anchor grid holds the anchor's \<open>(width, height)\<close> times the stride of the scale
  at every cell.
\<close>

theorem grid_cache:
  assumes run: "detect_forward d h x = Inr (Infer zc xs, d', h')"
    and no: "4 \<le> d_no d" and i: "i < d_nl d"
    and c: "(d_m d ! i) (x ! i) = Inr c" and shape: "shape4 c = (bs, ch, ny, nx)"
  shows "(\<not> d_onnx_dynamic d \<and> slot_shape24 (d_grid d ! i) = [ny, nx] \<longrightarrow>
            d_grid d' ! i = d_grid d ! i \<and> d_anchor_grid d' ! i = d_anchor_grid d ! i) \<and>
         (d_onnx_dynamic d \<or> slot_shape24 (d_grid d ! i) \<noteq> [ny, nx] \<longrightarrow>
            (\<exists>g ag. d_grid d' ! i = T5 g \<and> d_anchor_grid d' ! i = T5 ag \<and>
               length g = 1 \<and> length ag = 1 \<and>
               length (g ! 0) = d_na d \<and> length (ag ! 0) = d_na d \<and>
               (\<forall>a<d_na d. length (g ! 0 ! a) = ny \<and> length (ag ! 0 ! a) = ny \<and>
                  (\<forall>j<ny. length (g ! 0 ! a ! j) = nx \<and> length (ag ! 0 ! a ! j) = nx \<and>
                     (\<forall>k<nx. g ! 0 ! a ! j ! k = [real k, real j] \<and>
                              ag ! 0 ! a ! j ! k =
                                [d_anchors d ! i ! a ! 0 * d_stride d ! i,
                                 d_anchors d ! i ! a ! 1 * d_stride d ! i])))))"
proof -
  from detect_forward_infer [OF run no] i obtain c' where
    "(d_m d ! i) (x ! i) = Inr c'" and
    rule: "grid_rule d i c' (d_grid d' ! i) (d_anchor_grid d' ! i)"
    by blast
  with c have "c' = c" by simp
  with rule shape have r:
    "if d_onnx_dynamic d \<or> slot_shape24 (d_grid d ! i) \<noteq> [ny, nx]
     then (\<exists>g ag. make_grid d nx ny i = Inr (g, ag) \<and> d_grid d' ! i = T5 g \<and>
             d_anchor_grid d' ! i = T5 ag)
     else d_grid d' ! i = d_grid d ! i \<and> d_anchor_grid d' ! i = d_anchor_grid d ! i"
    by (simp add: grid_rule_def)
  show ?thesis
  proof (intro conjI impI)
    assume "\<not> d_onnx_dynamic d \<and> slot_shape24 (d_grid d ! i) = [ny, nx]"
    with r show "d_grid d' ! i = d_grid d ! i" "d_anchor_grid d' ! i = d_anchor_grid d ! i"
      by simp_all
  next
    assume "d_onnx_dynamic d \<or> slot_shape24 (d_grid d ! i) \<noteq> [ny, nx]"
    with r obtain g ag where
      mk: "make_grid d nx ny i = Inr (g, ag)" and
      sl: "d_grid d' ! i = T5 g" "d_anchor_grid d' ! i = T5 ag"
      by auto
    from make_grid_Inr [OF mk] sl
    show "\<exists>g ag. d_grid d' ! i = T5 g \<and> d_anchor_grid d' ! i = T5 ag \<and>
               length g = 1 \<and> length ag = 1 \<and>
               length (g ! 0) = d_na d \<and> length (ag ! 0) = d_na d \<and>
               (\<forall>a<d_na d. length (g ! 0 ! a) = ny \<and> length (ag ! 0 ! a) = ny \<and>
                  (\<forall>j<ny. length (g ! 0 ! a ! j) = nx \<and> length (ag ! 0 ! a ! j) = nx \<and>
                     (\<forall>k<nx. g ! 0 ! a ! j ! k = [real k, real j] \<and>
                              ag ! 0 ! a ! j ! k =
                                [d_anchors d ! i ! a ! 0 * d_stride d ! i,
                                 d_anchors d ! i ! a ! 1 * d_stride d ! i])))"
      by blast
  qed
qed

text \<open>
  Runs of the one-scale head on the 1 by 2 feature map of zeros: in inference from
  the empty cache, in inference from a cache of the right size, and in training.
\<close>

lemma demo_infer:
 "detect_forward (demo_head False True) [] [demo_map] =
     Inr (Infer [[[4, 4, 10, 20, 1/2, 1/2], [12, 4, 10, 20, 1/2, 1/2]]] [Ref 0],
          (demo_head False True)\<lparr>d_grid := [T5 [[[[[0, 0], [1, 0]]]]]],
             d_anchor_grid := [T5 [[[[[10, 20], [10, 20]]]]]]\<rparr>,
          [[[[[[0,0,0,0,0,0],[0,0,0,0,0,0]]]]],
           [[[[[4, 4, 10, 20, 1/2, 1/2], [12, 4, 10, 20, 1/2, 1/2]]]]]])"
  by (simp add: detect_forward_def detect_scale_def demo_head_def nth_err_def
      conv_out_def raw_scale_def refresh_for_def decode_store_def
      view_permute_def shape4_def demo_map_def upt_rec alloc_def refresh_grid_def rebuild_grid_def make_grid_def
      map5_def sigmoid_0 the_slot_def over_cells_def xy_row_def wh_row_def view3_def cat1_def
      power2_eq_square)

lemma demo_cached_run:
 "detect_forward demo_cached [] [demo_map] =
     Inr (Infer [[[44, 44, 1, 1, 1/2, 1/2], [44, 44, 1, 1, 1/2, 1/2]]] [Ref 0],
          demo_cached,
          [[[[[[0,0,0,0,0,0],[0,0,0,0,0,0]]]]],
           [[[[[44, 44, 1, 1, 1/2, 1/2], [44, 44, 1, 1, 1/2, 1/2]]]]]])"
  by (simp add: detect_forward_def detect_scale_def demo_cached_def demo_head_def nth_err_def
      conv_out_def raw_scale_def refresh_for_def decode_store_def
      view_permute_def shape4_def demo_map_def upt_rec alloc_def refresh_grid_def rebuild_grid_def make_grid_def
      map5_def sigmoid_0 the_slot_def over_cells_def xy_row_def wh_row_def view3_def cat1_def
      power2_eq_square)

lemma demo_train:
 "detect_forward ((demo_head False True)\<lparr>d_training := True\<rparr>) [] [demo_map] =
     Inr (Train [Ref 0], (demo_head False True)\<lparr>d_training := True\<rparr>,
          [[[[[[0,0,0,0,0,0],[0,0,0,0,0,0]]]]]])"
  by (simp add: detect_forward_def detect_scale_def demo_head_def nth_err_def
      conv_out_def raw_scale_def
      view_permute_def shape4_def demo_map_def upt_rec alloc_def)


theorem decode_formula_witness:
  "detect_forward (demo_head False True) [] [demo_map] =
     Inr (Infer [[[4, 4, 10, 20, 1/2, 1/2], [12, 4, 10, 20, 1/2, 1/2]]] [Ref 0],
          (demo_head False True)\<lparr>d_grid := [T5 [[[[[0, 0], [1, 0]]]]]],
             d_anchor_grid := [T5 [[[[[10, 20], [10, 20]]]]]]\<rparr>,
          [[[[[[0,0,0,0,0,0],[0,0,0,0,0,0]]]]],
           [[[[[4, 4, 10, 20, 1/2, 1/2], [12, 4, 10, 20, 1/2, 1/2]]]]]]) \<and>
   [[[4, 4, 10, 20, 1/2, 1/2], [12, 4, 10, 20, 1/2, 1/2]]] ! 0 ! 1 =
     decoded_row 8 [0, 0, 0, 0, 0, 0] [1, 0] [10, 20]"
proof -
  let ?d = "demo_head False True"
  have conv: "\<forall>i<d_nl ?d. (d_m ?d ! i) ([demo_map] ! i) = Inr ((\<lambda>_. demo_map) i) \<and>
                 rect4 ((\<lambda>_. demo_map) i) 1 (d_na ?d * d_no ?d) ((\<lambda>_. 1) i) ((\<lambda>_. 2) i) \<and>
                 0 < (\<lambda>_. 1 :: nat) i \<and> 0 < (\<lambda>_. 2 :: nat) i"
    by (simp add: demo_head_def rect4_def demo_map_def)
  have no: "4 \<le> d_no ?d" and na: "0 < d_na ?d" and bs: "0 < (1 :: nat)"
    by (simp_all add: demo_head_def)
  note t = decode_formula [OF demo_infer no na bs conv, THEN conjunct2, THEN conjunct2,
    rule_format, of 0 0 0 0 1]
  have "[[[4, 4, 10, 20, 1/2, 1/2], [12, 4, 10, 20, 1/2, 1/2]]] ! 0 ! 1 =
     decoded_row 8 [0, 0, 0, 0, 0, 0] [1, 0] [10, 20 :: real]"
    using t by (simp add: demo_head_def demo_map_def the_slot_def upt_rec)
  with demo_infer show ?thesis
    by blast
qed

lemma demo_map_shape: "shape4 demo_map = (1, 6, 1, 2)"
  by (simp add: shape4_def demo_map_def)

theorem grid_cache_witness:
  "detect_forward demo_cached [] [demo_map] =
     Inr (Infer [[[44, 44, 1, 1, 1/2, 1/2], [44, 44, 1, 1, 1/2, 1/2]]] [Ref 0],
          demo_cached,
          [[[[[[0,0,0,0,0,0],[0,0,0,0,0,0]]]]],
           [[[[[44, 44, 1, 1, 1/2, 1/2], [44, 44, 1, 1, 1/2, 1/2]]]]]]) \<and>
   slot_shape24 (d_grid demo_cached ! 0) = [1, 2] \<and>
   d_grid demo_cached ! 0 = T5 [[[[[5, 5], [5, 5]]]]] \<and>
   (\<exists>g ag. T5 [[[[[0, 0], [1, 0]]]]] = T5 g \<and> T5 [[[[[10, 20], [10, 20]]]]] = T5 ag \<and>
      g ! 0 ! 0 ! 0 ! 1 = [real 1, real 0] \<and> ag ! 0 ! 0 ! 0 ! 1 = [1.25 * 8, 2.5 * 8])"
proof -
  have no: "4 \<le> d_no demo_cached" and i: "0 < d_nl demo_cached" and
    c: "(d_m demo_cached ! 0) ([demo_map] ! 0) = Inr demo_map"
    by (simp_all add: demo_cached_def demo_head_def)
  note hit = grid_cache [OF demo_cached_run no i c demo_map_shape, THEN conjunct1]
  have sh: "slot_shape24 (d_grid demo_cached ! 0) = [1, 2]"
    by (simp add: demo_cached_def demo_head_def)
  have dyn: "\<not> d_onnx_dynamic demo_cached"
    by (simp add: demo_cached_def demo_head_def)
  from hit sh dyn have "d_grid demo_cached ! 0 = d_grid demo_cached ! 0 \<and>
      d_anchor_grid demo_cached ! 0 = d_anchor_grid demo_cached ! 0"
    by blast
  have kept: "d_grid demo_cached ! 0 = T5 [[[[[5, 5], [5, 5]]]]]"
    by (simp add: demo_cached_def demo_head_def)
  let ?d = "demo_head False True"
  have no': "4 \<le> d_no ?d" and i': "0 < d_nl ?d" and
    c': "(d_m ?d ! 0) ([demo_map] ! 0) = Inr demo_map"
    by (simp_all add: demo_head_def)
  note miss = grid_cache [OF demo_infer no' i' c' demo_map_shape, THEN conjunct2]
  have "slot_shape24 (d_grid ?d ! 0) \<noteq> [1, 2]"
    by (simp add: demo_head_def)
  with miss have "\<exists>g ag. T5 [[[[[0, 0], [1, 0]]]]] = T5 g \<and> T5 [[[[[10, 20], [10, 20]]]]] = T5 ag \<and>
      g ! 0 ! 0 ! 0 ! 1 = [real 1, real 0] \<and> ag ! 0 ! 0 ! 0 ! 1 = [1.25 * 8, 2.5 * 8]"
    by (simp add: demo_head_def)
  with demo_cached_run sh kept show ?thesis
    by blast
qed

theorem raw_tensors_untouched_witness:
  "detect_forward (demo_head False True) [] [demo_map] =
     Inr (Infer [[[4, 4, 10, 20, 1/2, 1/2], [12, 4, 10, 20, 1/2, 1/2]]] [Ref 0],
          (demo_head False True)\<lparr>d_grid := [T5 [[[[[0, 0], [1, 0]]]]]],
             d_anchor_grid := [T5 [[[[[10, 20], [10, 20]]]]]]\<rparr>,
          [[[[[[0,0,0,0,0,0],[0,0,0,0,0,0]]]]],
           [[[[[4, 4, 10, 20, 1/2, 1/2], [12, 4, 10, 20, 1/2, 1/2]]]]]]) \<and>
   (\<exists>xt dt ht.
      detect_forward ((demo_head False True)\<lparr>d_training := True\<rparr>) [] [demo_map] =
        Inr (Train xt, dt, ht) \<and>
      map (deref ht) xt = [Some [[[[[0,0,0,0,0,0],[0,0,0,0,0,0]]]]]])"
proof -
  from raw_tensors_untouched [OF demo_infer] obtain xt dt ht where
    "detect_forward ((demo_head False True)\<lparr>d_training := True\<rparr>) [] [demo_map] =
        Inr (Train xt, dt, ht)" and
    "map (deref ht) xt =
       map (deref [[[[[[0,0,0,0,0,0],[0,0,0,0,0,0]]]]],
                   [[[[[4, 4, 10, 20, 1/2, 1/2], [12, 4, 10, 20, 1/2, 1/2]]]]]]) [Ref 0]"
    by blast
  then have "\<exists>xt dt ht.
      detect_forward ((demo_head False True)\<lparr>d_training := True\<rparr>) [] [demo_map] =
        Inr (Train xt, dt, ht) \<and>
      map (deref ht) xt = [Some [[[[[0,0,0,0,0,0],[0,0,0,0,0,0]]]]]]"
    by (simp add: deref_def)
  with demo_infer show ?thesis
    by blast
qed

end
